theory Spec2Isabelle
  imports Main "HOL-Library.Word" "HOL-Library.Multiset" "HOL-Library.List_Lexorder"
    "HOL-Library.Product_Lexorder"
begin

section \<open>Data model\<close>

text \<open>
  The simulator keeps its integers in \<open>uint32_t\<close> (\<open>uint16_t\<close> for the memory
  requirement of a program), so they are words here and every addition and subtraction
  wraps as the C one does.
\<close>

datatype MEMORY_STRATEGY = INFINITE | BEST_FIT

datatype SCHEDULER_TYPE = SJF | RR

datatype PROCESS_STATE = READY | RUNNING | FINISHED

record program =
  name :: string
  time_arrived :: "32 word"
  service_time :: "32 word"
  memory_required :: "16 word"

text \<open>\<open>struct memory_block\<close>: \<open>index\<close> is the start offset, \<open>size\<close> the length.\<close>

record memory_block =
  index :: "32 word"
  size_mb :: "32 word"

text \<open>
  \<open>struct memory_allocator\<close>. The free list is a linked list of heap blocks, each block
  held by exactly one node, so it is the list of the blocks in list order; the
  \<open>NULL\<close> list of the \<open>INFINITE\<close> strategy is the empty list.
\<close>

record memory_allocator =
  free_list :: "memory_block list"
  strategy :: MEMORY_STRATEGY

text \<open>
  \<open>struct process\<close>. \<open>pBlock\<close> is \<open>None\<close> for \<open>NULL\<close>; \<open>child_pid\<close> is
  \<open>PID_NULL_HANDLE\<close> until the worker is forked. The pipe descriptors are not kept:
  what is written to and read from them is in the protocol functions below.
\<close>

record process =
  pProgram :: program
  run_time :: "32 word"
  state :: PROCESS_STATE
  pBlock :: "memory_block option"
  child_pid :: int
  sha_buf :: string

text \<open>
  How a run of the C program can stop early: a failed \<open>assert\<close>, a read through a
  \<open>NULL\<close> pointer, \<open>exit(EXIT_FAILURE)\<close>, and a call of the C library whose
  behaviour is undefined.
\<close>

datatype error = AssertionFailed | NullDereference | ExitFailure | UndefinedBehaviour

definition BUFFER_SIZE :: "32 word" where
  "BUFFER_SIZE = 2048"

section \<open>The list container\<close>

text \<open>
  Modelled from the spec: \<open>linked_list.h\<close> and its implementation are not among the
  sources; the spec calls the container "a generic ordered-sequence/list container used
  to hold queues (any ordered mutable collection suffices)". A list of the C program is
  the HOL list of the data of its nodes, head first, and a \<open>node*\<close> is a position in it.
\<close>

text \<open>Modelled from the spec: \<open>list_insert_tail\<close> appends a node (queues are in
  "insertion order" and a process is "re-enqueued at the tail").\<close>

definition list_insert_tail :: "'a list \<Rightarrow> 'a \<Rightarrow> 'a list" where
  "list_insert_tail xs x = xs @ [x]"

text \<open>Modelled from the spec: \<open>list_insert_head\<close> puts a node in front.\<close>

definition list_insert_head :: "'a list \<Rightarrow> 'a \<Rightarrow> 'a list" where
  "list_insert_head xs x = x # xs"

text \<open>
  Modelled from the spec: \<open>list_pop_node\<close> unlinks the node at position \<open>k\<close>. Its
  callers continue their scan with the pointer it returns, "keep scanning from the merge
  point": the node that followed the removed one, which is at position \<open>k\<close> of the
  new list.
\<close>

definition list_pop_node :: "'a list \<Rightarrow> nat \<Rightarrow> 'a list" where
  "list_pop_node xs k = take k xs @ drop (Suc k) xs"

text \<open>
  Modelled from the spec: \<open>list_insert_sorted\<close> "reinserts the block into the free list
  in start-offset order", the order being that of the comparison function it is given.
  The spec does not say on which side of the nodes that compare equal the new node
  goes, and \<open>mem_block_cmp\<close> answers \<open>-1\<close> for equal offsets whichever way it is
  asked. Both readings are kept: with \<open>after_equal\<close> the new node goes before the
  first node that compares greater than it, without it before the first node it does
  not compare greater than.
\<close>

fun list_insert_sorted ::
  "bool \<Rightarrow> ('a option \<Rightarrow> 'a option \<Rightarrow> int) \<Rightarrow> 'a list \<Rightarrow> 'a \<Rightarrow> 'a list" where
  "list_insert_sorted after_equal cmp [] x = [x]"
| "list_insert_sorted after_equal cmp (y # ys) x =
     (if (if after_equal then cmp (Some y) (Some x) > 0 else cmp (Some x) (Some y) < 0)
      then x # y # ys
      else y # list_insert_sorted after_equal cmp ys x)"

section \<open>Memory allocator\<close>

definition mem_block_cmp :: "memory_block option \<Rightarrow> memory_block option \<Rightarrow> int" where
  "mem_block_cmp pData1 pData2 =
     (case pData1 of
        None \<Rightarrow> -1
      | Some pBlock1 \<Rightarrow>
          (case pData2 of
             None \<Rightarrow> 1
           | Some pBlock2 \<Rightarrow>
               if index pBlock1 > index pBlock2 then 1
               else if index pBlock1 \<le> index pBlock2 then -1
               else -1))"

definition allocator_initialise :: "MEMORY_STRATEGY \<Rightarrow> memory_allocator" where
  "allocator_initialise strat =
     (case strat of
        INFINITE \<Rightarrow> \<lparr>free_list = [], strategy = strat\<rparr>
      | BEST_FIT \<Rightarrow>
          \<lparr>free_list = list_insert_head [] \<lparr>index = 0, size_mb = BUFFER_SIZE\<rparr>,
           strategy = strat\<rparr>)"

text \<open>
  The merging loop of \<open>allocater_free_memory\<close>, from \<open>pNode\<close> on: a block whose end
  is the start of the next one is added to that next block and its node is popped, and
  the scan goes on from the grown block.
\<close>

fun merge_adjacent :: "memory_block list \<Rightarrow> memory_block list" where
  "merge_adjacent (pBlock1 # pBlock2 # bs) =
     (if index pBlock1 + size_mb pBlock1 = index pBlock2
      then merge_adjacent
             (pBlock2\<lparr>index := index pBlock2 - size_mb pBlock1,
                      size_mb := size_mb pBlock2 + size_mb pBlock1\<rparr> # bs)
      else pBlock1 # merge_adjacent (pBlock2 # bs))"
| "merge_adjacent bs = bs"

text \<open>What \<open>allocater_free_memory\<close> does to the free list with the block of the process.\<close>

definition release_block :: "bool \<Rightarrow> memory_block list \<Rightarrow> memory_block \<Rightarrow> memory_block list" where
  "release_block after_equal fl b =
     merge_adjacent (list_insert_sorted after_equal mem_block_cmp fl b)"

text \<open>
  \<open>allocater_free_memory\<close>. The process is always one that holds a block; with a
  \<open>NULL\<close> block the merging loop would read through it.
\<close>

definition allocater_free_memory ::
  "bool \<Rightarrow> memory_allocator \<Rightarrow> process \<Rightarrow> error + (memory_allocator \<times> process)" where
  "allocater_free_memory after_equal a pProcess =
     (case pBlock pProcess of
        None \<Rightarrow> Inl NullDereference
      | Some b \<Rightarrow>
          Inr (a\<lparr>free_list := release_block after_equal (free_list a) b\<rparr>,
               pProcess\<lparr>pBlock := None\<rparr>))"

text \<open>
  The scan of \<open>allocator_find_best_fit\<close>: \<open>bs\<close> are the nodes from \<open>pNode\<close> on,
  \<open>i\<close> is the position of \<open>pNode\<close> in the list, \<open>chosen\<close> is \<open>pChosenBlock\<close>
  (the position of the block it points to, \<open>None\<close> for \<open>NULL\<close>) and \<open>min_gap\<close> is
  the variable of that name.
\<close>

fun best_fit_scan ::
  "32 word \<Rightarrow> memory_block list \<Rightarrow> nat \<Rightarrow> nat option \<Rightarrow> 32 word \<Rightarrow> nat option" where
  "best_fit_scan sz [] i chosen min_gap = chosen"
| "best_fit_scan sz (b # bs) i chosen min_gap =
     (if size_mb b < sz then best_fit_scan sz bs (Suc i) chosen min_gap
      else let gap = size_mb b - sz in
        if chosen = None \<or> min_gap > gap then best_fit_scan sz bs (Suc i) (Some i) gap
        else best_fit_scan sz bs (Suc i) chosen min_gap)"

text \<open>
  \<open>allocator_find_best_fit\<close> returns the block handed to the process (\<open>None\<close> for
  \<open>NULL\<close>) and the allocator with the chosen block shrunk in place. The
  \<open>assert\<close> on the head of the free list is the \<open>AssertionFailed\<close> branch.
\<close>

definition allocator_find_best_fit ::
  "memory_allocator \<Rightarrow> 32 word \<Rightarrow> error + (memory_block option \<times> memory_allocator)" where
  "allocator_find_best_fit a sz =
     (if strategy a = INFINITE then Inr (None, a)
      else if free_list a = [] then Inl AssertionFailed
      else case best_fit_scan sz (free_list a) 0 None 0 of
             None \<Rightarrow> Inr (None, a)
           | Some k \<Rightarrow>
               let c = free_list a ! k in
               Inr (Some \<lparr>index = index c, size_mb = sz\<rparr>,
                    a\<lparr>free_list := (free_list a)
                         [k := c\<lparr>index := index c + sz, size_mb := size_mb c - sz\<rparr>]\<rparr>))"

text \<open>
  \<open>best_at fl sz k\<close>: position \<open>k\<close> holds a block that is large enough, no large-enough
  block of the list leaves a smaller gap, and every large-enough block before \<open>k\<close>
  leaves a strictly larger one.
\<close>

definition best_at :: "memory_block list \<Rightarrow> 32 word \<Rightarrow> nat \<Rightarrow> bool" where
  "best_at fl sz k \<longleftrightarrow>
     k < length fl \<and> sz \<le> size_mb (fl ! k) \<and>
     (\<forall>j < length fl. sz \<le> size_mb (fl ! j) \<longrightarrow> size_mb (fl ! k) - sz \<le> size_mb (fl ! j) - sz) \<and>
     (\<forall>j < k. sz \<le> size_mb (fl ! j) \<longrightarrow> size_mb (fl ! k) - sz < size_mb (fl ! j) - sz)"

definition sorted_by_index :: "memory_block list \<Rightarrow> bool" where
  "sorted_by_index fl \<longleftrightarrow> sorted (map index fl)"

subsection \<open>States of the allocator\<close>

text \<open>
  The states the best-fit allocator can be in: it starts with the single block of the
  whole pool; \<open>allocator_find_best_fit\<close> hands a block to a process, which keeps it
  (\<open>owned\<close> are the blocks held by the processes that have not finished);
  \<open>allocater_free_memory\<close> takes the block of a process back. A failed allocation
  leaves everything as it is.
\<close>

inductive reachable :: "bool \<Rightarrow> memory_allocator \<Rightarrow> memory_block list \<Rightarrow> bool"
  for after_equal :: bool where
  init: "reachable after_equal (allocator_initialise BEST_FIT) []"
| allocate:
    "reachable after_equal a owned \<Longrightarrow>
     allocator_find_best_fit a sz = Inr (Some g, a') \<Longrightarrow>
     reachable after_equal a' (list_insert_tail owned g)"
| release:
    "reachable after_equal a owned \<Longrightarrow> i < length owned \<Longrightarrow>
     reachable after_equal
       (a\<lparr>free_list := release_block after_equal (free_list a) (owned ! i)\<rparr>)
       (list_pop_node owned i)"

text \<open>The first address after a block, and whether two blocks share an address.\<close>

definition block_end :: "memory_block \<Rightarrow> nat" where
  "block_end b = unat (index b) + unat (size_mb b)"

definition overlap :: "memory_block \<Rightarrow> memory_block \<Rightarrow> bool" where
  "overlap b1 b2 \<longleftrightarrow>
     max (unat (index b1)) (unat (index b2)) < min (block_end b1) (block_end b2)"

text \<open>The addresses of a block and of a list of blocks, counted with multiplicity.\<close>

definition cells :: "memory_block \<Rightarrow> nat multiset" where
  "cells b = mset [unat (index b) ..< block_end b]"

definition cover :: "memory_block list \<Rightarrow> nat multiset" where
  "cover bs = sum_list (map cells bs)"

definition pool_inv :: "memory_block list \<Rightarrow> bool" where
  "pool_inv bs \<longleftrightarrow>
     cover bs = mset [0 ..< unat BUFFER_SIZE] \<and> (\<forall>b \<in> set bs. block_end b \<le> unat BUFFER_SIZE)"

section \<open>Scheduling policies\<close>

text \<open>
  \<open>strcmp\<close> of the C library on the bytes of two strings: the difference of the first
  two bytes that differ, the end of a string counting as the byte 0, and 0 when there is
  none before a string ends.
\<close>

fun strcmp :: "string \<Rightarrow> string \<Rightarrow> int" where
  "strcmp [] [] = 0"
| "strcmp [] (d # ds) = - int (of_char d)"
| "strcmp (c # cs) [] = int (of_char c)"
| "strcmp (c # cs) (d # ds) =
     (if c = d then (if c = CHR 0x00 then 0 else strcmp cs ds)
      else int (of_char c) - int (of_char d))"

text \<open>
  The loop of \<open>shortest_job_first\<close> over the processes of the nodes from \<open>pNode\<close>
  on; \<open>i\<close> is the position of \<open>pNode\<close>, \<open>pChosen\<close> the chosen node (its position and
  its process) and \<open>min_time\<close> the variable of that name.
\<close>

fun sjf_scan ::
  "process list \<Rightarrow> nat \<Rightarrow> (nat \<times> process) option \<Rightarrow> 32 word \<Rightarrow> (nat \<times> process) option" where
  "sjf_scan [] i pChosen min_time = pChosen"
| "sjf_scan (pProcess # ps) i pChosen min_time =
     (let service = service_time (pProgram pProcess) in
      case pChosen of
        None \<Rightarrow> sjf_scan ps (Suc i) (Some (i, pProcess)) service
      | Some (c, pChosenProcess) \<Rightarrow>
          if min_time = service then
            if time_arrived (pProgram pChosenProcess) = time_arrived (pProgram pProcess) then
              if strcmp (name (pProgram pChosenProcess)) (name (pProgram pProcess)) > 0
              then sjf_scan ps (Suc i) (Some (i, pProcess)) service
              else sjf_scan ps (Suc i) pChosen min_time
            else if time_arrived (pProgram pChosenProcess) > time_arrived (pProgram pProcess)
            then sjf_scan ps (Suc i) (Some (i, pProcess)) service
            else sjf_scan ps (Suc i) pChosen min_time
          else if min_time > service
          then sjf_scan ps (Suc i) (Some (i, pProcess)) service
          else sjf_scan ps (Suc i) pChosen min_time)"

text \<open>
  The order the loop follows: service time, then arrival time, then the bytes of the
  name up to its end, each list of bytes compared as \<open>strcmp\<close> does.
\<close>

definition c_bytes :: "string \<Rightarrow> nat list" where
  "c_bytes s = map of_char (takeWhile (\<lambda>c. c \<noteq> CHR 0x00) s)"

definition sjf_key :: "process \<Rightarrow> 32 word \<times> 32 word \<times> nat list" where
  "sjf_key p = (service_time (pProgram p), time_arrived (pProgram p), c_bytes (name (pProgram p)))"

text \<open>\<open>first_least xs k\<close>: the process at position \<open>k\<close> is least in that order, and
  the first such in the list.\<close>

definition first_least :: "process list \<Rightarrow> nat \<Rightarrow> bool" where
  "first_least xs k \<longleftrightarrow>
     k < length xs \<and> (\<forall>j < length xs. sjf_key (xs ! k) \<le> sjf_key (xs ! j)) \<and>
     (\<forall>j < k. sjf_key (xs ! k) < sjf_key (xs ! j))"

text \<open>
  \<open>shortest_job_first\<close> and \<open>round_robin\<close> return a node of the list, here its
  position, or \<open>NULL\<close>; the argument is the list of the processes of the nodes.
\<close>

definition shortest_job_first :: "process list \<Rightarrow> nat option" where
  "shortest_job_first pList = map_option fst (sjf_scan pList 0 None 0)"

definition round_robin :: "'a list \<Rightarrow> nat option" where
  "round_robin pList = (if pList = [] then None else Some 0)"

section \<open>The process manager\<close>

text \<open>
  What the manager does to the outside: lines printed on standard output, workers
  forked, the simulated time written to the pipe of a worker, signals sent, pipes closed.
\<close>

datatype signal = SIGTERM | SIGTSTP | SIGCONT

datatype event =
    Printf string
  | Fork string int
  | Write_time int "32 word"
  | Kill int signal
  | Close_pipes int

text \<open>
  What the outside answers: the value \<open>fork\<close> returns in the manager for the worker of
  a program, the byte a worker writes back after the time it was sent, and the hash it
  writes when it is terminated. The system calls themselves (\<open>pipe\<close>, \<open>write\<close>,
  \<open>read\<close>, \<open>kill\<close>, \<open>waitpid\<close>, \<open>close\<close>) are taken to succeed.
\<close>

record world =
  fork_pid :: "string \<Rightarrow> int"
  verify_byte :: "string \<Rightarrow> 32 word \<Rightarrow> 8 word"
  sha_hash :: "string \<Rightarrow> string"

definition PID_NULL_HANDLE :: int where
  "PID_NULL_HANDLE = -2"

definition SHA_HASH_SIZE :: nat where
  "SHA_HASH_SIZE = 64"

text \<open>
  The static state of the manager. \<open>pPrograms\<close>, \<open>pending_count\<close> and \<open>type\<close> are the
  fields of \<open>instance\<close> (\<open>program_count\<close> is the length of \<open>pPrograms\<close>), \<open>index_cp\<close>
  is the static \<open>index\<close> of \<open>check_pending\<close>. The processes live in \<open>list_active\<close>;
  the ready list and \<open>pRunningProcess\<close> point into it, so a pointer to a process is its
  position in \<open>list_active\<close>, which only grows at its tail. The floating-point
  statistics are left out.
\<close>

record engine =
  time :: "32 word"
  pPrograms :: "program list"
  pending_count :: "32 word"
  type_pm :: SCHEDULER_TYPE
  index_cp :: nat
  list_input :: "program list"
  list_active :: "process list"
  list_ready :: "nat list"
  pRunningProcess :: "nat option"
  allocator :: memory_allocator
  trace :: "event list"

definition process_manager_initialise :: "SCHEDULER_TYPE \<Rightarrow> MEMORY_STRATEGY \<Rightarrow> engine" where
  "process_manager_initialise ty strat =
     \<lparr>time = 0, pPrograms = [], pending_count = 0, type_pm = ty, index_cp = 0,
      list_input = [], list_active = [], list_ready = [], pRunningProcess = None,
      allocator = allocator_initialise strat, trace = []\<rparr>"

definition program_add :: "engine \<Rightarrow> program \<Rightarrow> engine" where
  "program_add s prog = s\<lparr>pPrograms := pPrograms s @ [prog]\<rparr>"

text \<open>\<open>printf\<close> with \<open>%d\<close>: the 32 bits read as a signed number, in decimal.\<close>

fun digits_of :: "nat \<Rightarrow> string" where
  "digits_of n =
     (if n < 10 then [''0123456789'' ! n]
      else digits_of (n div 10) @ [''0123456789'' ! (n mod 10)])"

declare digits_of.simps [simp del]

definition print_d :: "32 word \<Rightarrow> string" where
  "print_d x = (if sint x < 0 then CHR ''-'' # digits_of (nat (- sint x))
                else digits_of (nat (sint x)))"

text \<open>
  \<open>process_log\<close>: the lines printed for a process, by its state. The \<open>READY\<close> line
  reads the block of the process.
\<close>

definition process_log :: "engine \<Rightarrow> process \<Rightarrow> error + event list" where
  "process_log s pProcess =
     (case state pProcess of
        READY \<Rightarrow>
          (case pBlock pProcess of
             None \<Rightarrow> Inl NullDereference
           | Some b \<Rightarrow>
               Inr [Printf (print_d (time s) @ '',READY,process_name='' @ name (pProgram pProcess) @
                            '',assigned_at='' @ print_d (index b))])
      | RUNNING \<Rightarrow>
          Inr [Printf (print_d (time s) @ '',RUNNING,process_name='' @ name (pProgram pProcess) @
                       '',remaining_time='' @
                       print_d (service_time (pProgram pProcess) - run_time pProcess))]
      | FINISHED \<Rightarrow>
          Inr [Printf (print_d (time s) @ '',FINISHED,process_name='' @ name (pProgram pProcess) @
                       '',proc_remaining='' @ print_d (pending_count s)),
               Printf (print_d (time s) @ '',FINISHED-PROCESS,process_name='' @
                       name (pProgram pProcess) @ '',sha='' @ sha_buf pProcess)])"

text \<open>
  \<open>process_try_create\<close> touches the allocator only. The state of the new process is not
  set here in C; \<open>process_submit_ready\<close> sets it before anything reads it.
\<close>

definition process_try_create ::
  "memory_allocator \<Rightarrow> program \<Rightarrow> error + (process option \<times> memory_allocator)" where
  "process_try_create a prog =
     (let new = \<lambda>b. \<lparr>pProgram = prog, run_time = 0, state = READY, pBlock = b,
                      child_pid = PID_NULL_HANDLE, sha_buf = []\<rparr> in
      if strategy a = BEST_FIT then
        (case allocator_find_best_fit a (ucast (memory_required prog)) of
           Inl e \<Rightarrow> Inl e
         | Inr (None, a') \<Rightarrow> Inr (None, a')
         | Inr (Some b, a') \<Rightarrow> Inr (Some (new (Some b)), a'))
      else Inr (Some (new None), a))"

definition process_submit_ready :: "engine \<Rightarrow> nat \<Rightarrow> engine" where
  "process_submit_ready s p =
     s\<lparr>list_active := (list_active s)[p := (list_active s ! p)\<lparr>state := READY\<rparr>],
       list_ready := list_insert_tail (list_ready s) p\<rparr>"

text \<open>The first loop of \<open>check_pending\<close>: programs that have arrived go to the input list.\<close>

function check_pending_arrivals :: "engine \<Rightarrow> engine" where
  "check_pending_arrivals s =
     (if index_cp s < length (pPrograms s) then
        let prog = pPrograms s ! index_cp s in
        if time_arrived prog > time s then s
        else check_pending_arrivals
               (s\<lparr>list_input := list_insert_tail (list_input s) prog,
                  pending_count := pending_count s + 1,
                  index_cp := index_cp s + 1\<rparr>)
      else s)"
  by pat_completeness auto
termination
  by (relation "measure (\<lambda>s. length (pPrograms s) - index_cp s)") auto

declare check_pending_arrivals.simps [simp del]

text \<open>
  The second loop of \<open>check_pending\<close>, with \<open>pNode\<close> at position \<open>k\<close> of the input
  list (\<open>NULL\<close> when \<open>k\<close> is its length).
\<close>

function check_pending_scan :: "nat \<Rightarrow> engine \<Rightarrow> error + engine" where
  "check_pending_scan k s =
     (if k < length (list_input s) then
        case process_try_create (allocator s) (list_input s ! k) of
          Inl e \<Rightarrow> Inl e
        | Inr (None, a') \<Rightarrow>
            check_pending_scan (Suc k)
              (s\<lparr>allocator := a'\<rparr>)
        | Inr (Some pProcess, a') \<Rightarrow>
            let p = length (list_active s);
                s1 = process_submit_ready
                       (s\<lparr>allocator := a',
                          list_active := list_insert_tail (list_active s) pProcess\<rparr>) p
            in case (if pBlock (list_active s1 ! p) \<noteq> None then process_log s1 (list_active s1 ! p)
                     else Inr []) of
                 Inl e \<Rightarrow> Inl e
               | Inr out \<Rightarrow>
                   check_pending_scan k
                     (s1\<lparr>trace := trace s1 @ out,
                         list_input := list_pop_node (list_input s) k\<rparr>)
      else Inr s)"
  by pat_completeness auto
termination
  by (relation "measure (\<lambda>(k, s). length (list_input s) - k)")
     (auto simp: list_pop_node_def)

declare check_pending_scan.simps [simp del]

definition check_pending :: "engine \<Rightarrow> error + engine" where
  "check_pending s =
     (let s1 = check_pending_arrivals s in
      if list_input s1 = [] then Inr s1 else check_pending_scan 0 s1)"

text \<open>
  The protocol with a worker. The time goes out in big-endian order, and the byte kept as
  \<open>last_byte_sent\<close> is the last of the four, the low-order byte of the time.
\<close>

definition process_continue :: "world \<Rightarrow> engine \<Rightarrow> nat \<Rightarrow> error + engine" where
  "process_continue w s p =
     (let pProcess = list_active s ! p;
          s1 = s\<lparr>trace := trace s @ [Write_time (child_pid pProcess) (time s),
                                     Kill (child_pid pProcess) SIGCONT]\<rparr>
      in if verify_byte w (name (pProgram pProcess)) (time s) \<noteq> ucast (time s)
         then Inl ExitFailure else Inr s1)"

definition process_suspend :: "engine \<Rightarrow> nat \<Rightarrow> engine" where
  "process_suspend s p =
     (let pProcess = list_active s ! p in
      s\<lparr>trace := trace s @ [Write_time (child_pid pProcess) (time s),
                            Kill (child_pid pProcess) SIGTSTP]\<rparr>)"

definition process_terminate :: "world \<Rightarrow> engine \<Rightarrow> nat \<Rightarrow> engine" where
  "process_terminate w s p =
     (let pProcess = list_active s ! p in
      s\<lparr>trace := trace s @ [Write_time (child_pid pProcess) (time s),
                            Kill (child_pid pProcess) SIGTERM,
                            Close_pipes (child_pid pProcess)],
        list_active := (list_active s)
          [p := pProcess\<lparr>sha_buf := take SHA_HASH_SIZE (sha_hash w (name (pProgram pProcess))),
                         state := FINISHED\<rparr>]\<rparr>)"

text \<open>
  \<open>process_run\<close>. Of the two branches after \<open>fork\<close> the manager is the parent; the
  child becomes the worker.
\<close>

definition process_run :: "world \<Rightarrow> engine \<Rightarrow> nat \<Rightarrow> error + engine" where
  "process_run w s p =
     (let s1 = s\<lparr>list_active := (list_active s)[p := (list_active s ! p)\<lparr>state := RUNNING\<rparr>]\<rparr>
      in case process_log s1 (list_active s1 ! p) of
           Inl e \<Rightarrow> Inl e
         | Inr out \<Rightarrow>
             let s2 = s1\<lparr>trace := trace s1 @ out\<rparr>;
                 pProcess = list_active s2 ! p
             in if child_pid pProcess \<noteq> PID_NULL_HANDLE then process_continue w s2 p
                else
                  let pid = fork_pid w (name (pProgram pProcess)) in
                  if pid = -1 then Inl ExitFailure
                  else
                    let s3 = s2\<lparr>list_active := (list_active s2)[p := pProcess\<lparr>child_pid := pid\<rparr>],
                                trace := trace s2 @ [Fork (name (pProgram pProcess)) pid,
                                                     Write_time pid (time s2)]\<rparr>
                    in if verify_byte w (name (pProgram pProcess)) (time s2) \<noteq> ucast (time s2)
                       then Inl ExitFailure else Inr s3)"

definition should_terminate :: "engine \<Rightarrow> bool" where
  "should_terminate s =
     (if list_active s = [] then (if length (pPrograms s) > 0 then False else True)
      else (\<forall>pProcess \<in> set (list_active s). state pProcess = FINISHED) \<and>
           length (list_active s) = length (pPrograms s))"

definition update :: "world \<Rightarrow> bool \<Rightarrow> engine \<Rightarrow> 32 word \<Rightarrow> error + engine" where
  "update w after_equal s delta_time =
     (let s1 = s\<lparr>time := time s + delta_time\<rparr> in
      case pRunningProcess s1 of
        None \<Rightarrow> Inr s1
      | Some r \<Rightarrow>
          let s2 = s1\<lparr>list_active := (list_active s1)
                     [r := (list_active s1 ! r)\<lparr>run_time := run_time (list_active s1 ! r) + delta_time\<rparr>]\<rparr>
          in if run_time (list_active s2 ! r) \<ge> service_time (pProgram (list_active s2 ! r)) then
               let s3 = process_terminate w (s2\<lparr>pending_count := pending_count s2 - 1\<rparr>) r in
               case (if strategy (allocator s3) = BEST_FIT then
                       (case allocater_free_memory after_equal (allocator s3) (list_active s3 ! r) of
                          Inl e \<Rightarrow> Inl e
                        | Inr (a', pProcess) \<Rightarrow>
                            Inr (s3\<lparr>allocator := a',
                                    list_active := (list_active s3)[r := pProcess]\<rparr>))
                     else Inr s3) of
                 Inl e \<Rightarrow> Inl e
               | Inr s4 \<Rightarrow>
                   (case process_log s4 (list_active s4 ! r) of
                      Inl e \<Rightarrow> Inl e
                    | Inr out \<Rightarrow> Inr (s4\<lparr>trace := trace s4 @ out, pRunningProcess := None\<rparr>))
             else Inr s2)"

definition keep_process_running :: "world \<Rightarrow> engine \<Rightarrow> error + (bool \<times> engine)" where
  "keep_process_running w s =
     (case pRunningProcess s of
        None \<Rightarrow> Inr (False, s)
      | Some r \<Rightarrow>
          (case type_pm s of
             SJF \<Rightarrow>
               (case process_continue w s r of Inl e \<Rightarrow> Inl e | Inr s1 \<Rightarrow> Inr (True, s1))
           | RR \<Rightarrow>
               if list_ready s \<noteq> [] then
                 Inr (False, (process_submit_ready (process_suspend s r) r)\<lparr>pRunningProcess := None\<rparr>)
               else
                 (case process_continue w s r of Inl e \<Rightarrow> Inl e | Inr s1 \<Rightarrow> Inr (True, s1))))"

definition switch_process :: "world \<Rightarrow> engine \<Rightarrow> error + engine" where
  "switch_process w s =
     (case (case type_pm s of
              SJF \<Rightarrow> shortest_job_first (map (\<lambda>p. list_active s ! p) (list_ready s))
            | RR \<Rightarrow> round_robin (list_ready s)) of
        None \<Rightarrow> Inr s
      | Some pReady \<Rightarrow>
          let r = list_ready s ! pReady in
          (case process_run w (s\<lparr>pRunningProcess := Some r\<rparr>) r of
             Inl e \<Rightarrow> Inl e
           | Inr s1 \<Rightarrow> Inr (s1\<lparr>list_ready := list_pop_node (list_ready s1) pReady\<rparr>)))"

text \<open>One turn of the execution loop of \<open>main\<close>, entered when \<open>should_terminate\<close> is false.\<close>

definition main_loop_body :: "world \<Rightarrow> bool \<Rightarrow> 32 word \<Rightarrow> engine \<Rightarrow> error + engine" where
  "main_loop_body w after_equal quantum s =
     (case check_pending s of
        Inl e \<Rightarrow> Inl e
      | Inr s1 \<Rightarrow>
          (case keep_process_running w s1 of
             Inl e \<Rightarrow> Inl e
           | Inr (keep, s2) \<Rightarrow>
               (case (if \<not> keep then switch_process w s2 else Inr s2) of
                  Inl e \<Rightarrow> Inl e
                | Inr s3 \<Rightarrow> update w after_equal s3 quantum)))"

text \<open>The states of a run: the manager with the programs of the input file added, and
  the state after each turn of the loop.\<close>

inductive running ::
  "world \<Rightarrow> bool \<Rightarrow> SCHEDULER_TYPE \<Rightarrow> MEMORY_STRATEGY \<Rightarrow> 32 word \<Rightarrow> program list \<Rightarrow> engine \<Rightarrow> bool"
  for w after_equal ty strat quantum progs where
  start: "running w after_equal ty strat quantum progs
            (foldl program_add (process_manager_initialise ty strat) progs)"
| turn: "running w after_equal ty strat quantum progs s \<Longrightarrow> \<not> should_terminate s \<Longrightarrow>
         main_loop_body w after_equal quantum s = Inr s' \<Longrightarrow>
         running w after_equal ty strat quantum progs s'"

text \<open>
  The admission scan in the words of the specification, to compare \<open>check_pending\<close>
  with: the queue is gone through from head to tail with an allocation attempt for each
  entry; on success the process is created and the entry leaves the queue, on failure
  the entry stays and the scan goes on with the next one. The result is the queue that
  remains, the processes created, in order, and the allocator.
\<close>

fun admission_scan_spec ::
  "memory_allocator \<Rightarrow> program list \<Rightarrow> error + (program list \<times> process list \<times> memory_allocator)" where
  "admission_scan_spec a [] = Inr ([], [], a)"
| "admission_scan_spec a (prog # queue) =
     (case process_try_create a prog of
        Inl e \<Rightarrow> Inl e
      | Inr (None, a') \<Rightarrow>
          (case admission_scan_spec a' queue of
             Inl e \<Rightarrow> Inl e
           | Inr (rest, created, a'') \<Rightarrow> Inr (prog # rest, created, a''))
      | Inr (Some pProcess, a') \<Rightarrow>
          (case admission_scan_spec a' queue of
             Inl e \<Rightarrow> Inl e
           | Inr (rest, created, a'') \<Rightarrow> Inr (rest, pProcess # created, a'')))"

text \<open>The \<open>READY\<close> lines of the processes that hold a block, at a given time.\<close>

definition ready_lines :: "32 word \<Rightarrow> process list \<Rightarrow> event list" where
  "ready_lines t ps =
     concat (map (\<lambda>p. case pBlock p of
                         None \<Rightarrow> []
                       | Some b \<Rightarrow>
                           [Printf (print_d t @ '',READY,process_name='' @ name (pProgram p) @
                                    '',assigned_at='' @ print_d (index b))]) ps)"

text \<open>The lines on standard output among the events of a run.\<close>

fun printed :: "event list \<Rightarrow> string list" where
  "printed [] = []"
| "printed (Printf l # es) = l # printed es"
| "printed (e # es) = printed es"

text \<open>
  What holds of the processes in every state of a run: the ready list points, without
  repetition, to processes that are \<open>READY\<close>; the running process is \<open>RUNNING\<close>; a
  process that has not finished has not run at all or has run for less than its service
  time; a finished one has run for at most its service time and one quantum.
\<close>

definition engine_inv :: "32 word \<Rightarrow> engine \<Rightarrow> bool" where
  "engine_inv quantum s \<longleftrightarrow>
     (\<forall>p \<in> set (list_ready s). p < length (list_active s) \<and> state (list_active s ! p) = READY) \<and>
     distinct (list_ready s) \<and>
     (\<forall>r. pRunningProcess s = Some r \<longrightarrow>
        r < length (list_active s) \<and> state (list_active s ! r) = RUNNING) \<and>
     (\<forall>p \<in> set (list_active s). state p \<noteq> FINISHED \<longrightarrow>
        run_time p = 0 \<or> run_time p < service_time (pProgram p)) \<and>
     (\<forall>p \<in> set (list_active s).
        unat (run_time p) \<le> unat (service_time (pProgram p)) + unat quantum)"

text \<open>The processes of \<open>xs\<close> are still there in \<open>ys\<close>, with the run time they had.\<close>

definition same_run_times :: "process list \<Rightarrow> process list \<Rightarrow> bool" where
  "same_run_times xs ys \<longleftrightarrow>
     length xs \<le> length ys \<and>
     (\<forall>i < length xs. run_time (ys ! i) = run_time (xs ! i) \<and> pProgram (ys ! i) = pProgram (xs ! i))"

section \<open>Reading the input file\<close>

text \<open>
  The reading loop of \<open>main\<close> calls \<open>fscanf\<close> of the C library with the format
  \<open>"%u %s %u %hu\n"\<close>, on the characters of the file that are still unread. \<open>fscanf\<close>
  is modelled as the C standard describes it: a conversion skips white space, then takes
  the longest run of characters that fits it; a run of length zero is an input failure
  at the end of the file and a matching failure otherwise; the call returns \<open>EOF\<close> when
  an input failure comes before the first conversion, and the number of fields assigned
  otherwise. Where the standard leaves the behaviour undefined (a number that does not
  fit its field, a name longer than the array \<open>name\<close>), the model stops with
  \<open>UndefinedBehaviour\<close>.
\<close>

definition is_space :: "char \<Rightarrow> bool" where
  "is_space c \<longleftrightarrow> c \<in> set [CHR '' '', CHR 0x09, CHR 0x0A, CHR 0x0B, CHR 0x0C, CHR 0x0D]"

definition is_digit :: "char \<Rightarrow> bool" where
  "is_digit c \<longleftrightarrow> c \<in> set ''0123456789''"

definition digit_value :: "char \<Rightarrow> nat" where
  "digit_value c = of_char c - 48"

definition nat_of_digits :: "string \<Rightarrow> nat" where
  "nat_of_digits ds = foldl (\<lambda>acc c. acc * 10 + digit_value c) 0 ds"

datatype 'a conversion =
    Converted 'a string
  | Matching_failure string
  | Input_failure
  | Undefined

text \<open>
  \<open>%u\<close> and \<open>%hu\<close>: an optional sign and decimal digits, as \<open>strtoul\<close> takes them;
  \<open>bound\<close> is the number of values of the field.
\<close>

definition scan_unsigned :: "nat \<Rightarrow> string \<Rightarrow> nat conversion" where
  "scan_unsigned bound input =
     (let inp = dropWhile is_space input in
      if inp = [] then Input_failure
      else
        let signed = (hd inp = CHR ''+'' \<or> hd inp = CHR ''-'');
            body = (if signed then tl inp else inp);
            ds = takeWhile is_digit body;
            v = nat_of_digits ds
        in if ds = [] then Matching_failure body
           else if v \<ge> bound then Undefined
           else Converted (if hd inp = CHR ''-'' then (bound - v) mod bound else v)
                  (dropWhile is_digit body))"

text \<open>\<open>%s\<close>: the characters up to the next white space.\<close>

definition scan_string :: "string \<Rightarrow> string conversion" where
  "scan_string input =
     (let inp = dropWhile is_space input in
      if inp = [] then Input_failure
      else Converted (takeWhile (\<lambda>c. \<not> is_space c) inp) (dropWhile (\<lambda>c. \<not> is_space c) inp))"

definition MAX_NAME_LEN :: nat where
  "MAX_NAME_LEN = 8"

datatype scanned = EOF | Items nat

text \<open>
  One call \<open>fscanf(fp, "%u %s %u %hu\n", ...)\<close> on a program that is all zero, as
  \<open>new_program = {}\<close> makes it: what it returns, the program with the fields that were
  assigned, and the input left.
\<close>

definition fscanf_program :: "string \<Rightarrow> error + (scanned \<times> program \<times> string)" where
  "fscanf_program input =
     (let p0 = \<lparr>name = [], time_arrived = 0, service_time = 0, memory_required = 0\<rparr> in
      case scan_unsigned (2 ^ 32) input of
        Input_failure \<Rightarrow> Inr (EOF, p0, [])
      | Matching_failure r \<Rightarrow> Inr (Items 0, p0, r)
      | Undefined \<Rightarrow> Inl UndefinedBehaviour
      | Converted t r1 \<Rightarrow>
          let p1 = p0\<lparr>time_arrived := of_nat t\<rparr> in
          (case scan_string r1 of
             Input_failure \<Rightarrow> Inr (Items 1, p1, [])
           | Matching_failure r \<Rightarrow> Inr (Items 1, p1, r)
           | Undefined \<Rightarrow> Inl UndefinedBehaviour
           | Converted n r2 \<Rightarrow>
               if length n > MAX_NAME_LEN then Inl UndefinedBehaviour
               else
                 let p2 = p1\<lparr>name := n\<rparr> in
                 (case scan_unsigned (2 ^ 32) r2 of
                    Input_failure \<Rightarrow> Inr (Items 2, p2, [])
                  | Matching_failure r \<Rightarrow> Inr (Items 2, p2, r)
                  | Undefined \<Rightarrow> Inl UndefinedBehaviour
                  | Converted sv r3 \<Rightarrow>
                      let p3 = p2\<lparr>service_time := of_nat sv\<rparr> in
                      (case scan_unsigned (2 ^ 16) r3 of
                         Input_failure \<Rightarrow> Inr (Items 3, p3, [])
                       | Matching_failure r \<Rightarrow> Inr (Items 3, p3, r)
                       | Undefined \<Rightarrow> Inl UndefinedBehaviour
                       | Converted m r4 \<Rightarrow>
                           Inr (Items 4, p3\<lparr>memory_required := of_nat m\<rparr>,
                                dropWhile is_space r4)))))"

text \<open>
  The loop \<open>while(TRUE)\<close> of \<open>main\<close>: it ends when \<open>fscanf\<close> returns \<open>EOF\<close>, and adds a
  program after every other call. The result is \<open>None\<close> when the loop does not end.
\<close>

partial_function (option) read_programs :: "string \<Rightarrow> engine \<Rightarrow> (error + engine) option" where
  "read_programs input s =
     (case fscanf_program input of
        Inl e \<Rightarrow> Some (Inl e)
      | Inr (EOF, new_program, rest) \<Rightarrow> Some (Inr s)
      | Inr (Items n, new_program, rest) \<Rightarrow> read_programs rest (program_add s new_program))"

text \<open>A record of the input file as the format describes it, and a file of such records.\<close>

definition render_program :: "program \<Rightarrow> string" where
  "render_program p =
     digits_of (unat (time_arrived p)) @ '' '' @ name p @ '' '' @
     digits_of (unat (service_time p)) @ '' '' @
     digits_of (unat (memory_required p)) @ [CHR 0x0A]"

definition well_formed_name :: "string \<Rightarrow> bool" where
  "well_formed_name n \<longleftrightarrow> n \<noteq> [] \<and> length n \<le> MAX_NAME_LEN \<and> (\<forall>c \<in> set n. \<not> is_space c)"

section \<open>Best fit\<close>

lemma best_at_snoc_keep:
  assumes "best_at pre sz k" and "size_mb b < sz \<or> \<not> size_mb b - sz < size_mb (pre ! k) - sz"
  shows "best_at (pre @ [b]) sz k"
proof -
  have k: "k < length pre" using assms(1) by (simp add: best_at_def)
  have "\<forall>j < length (pre @ [b]). sz \<le> size_mb ((pre @ [b]) ! j) \<longrightarrow>
          size_mb (pre ! k) - sz \<le> size_mb ((pre @ [b]) ! j) - sz"
  proof (intro allI impI)
    fix j assume j: "j < length (pre @ [b])" and c: "sz \<le> size_mb ((pre @ [b]) ! j)"
    show "size_mb (pre ! k) - sz \<le> size_mb ((pre @ [b]) ! j) - sz"
    proof (cases "j < length pre")
      case True
      then show ?thesis using assms(1) c by (simp add: best_at_def nth_append)
    next
      case False
      then have "j = length pre" using j by simp
      then show ?thesis using assms(2) c by (auto simp: not_less)
    qed
  qed
  then show ?thesis using assms(1) k by (simp add: best_at_def nth_append)
qed

lemma best_at_snoc_take:
  assumes "(\<forall>j < length pre. size_mb (pre ! j) < sz) \<or>
           (\<exists>k. best_at pre sz k \<and> size_mb b - sz < size_mb (pre ! k) - sz)"
    and "sz \<le> size_mb b"
  shows "best_at (pre @ [b]) sz (length pre)"
proof -
  have lt: "size_mb b - sz < size_mb (pre ! j) - sz"
    if j: "j < length pre" and c: "sz \<le> size_mb (pre ! j)" for j
  proof -
    from assms(1) show ?thesis
    proof
      assume "\<forall>j < length pre. size_mb (pre ! j) < sz"
      then show ?thesis using j c by (simp add: not_less [symmetric])
    next
      assume "\<exists>k. best_at pre sz k \<and> size_mb b - sz < size_mb (pre ! k) - sz"
      then obtain k where k: "best_at pre sz k" "size_mb b - sz < size_mb (pre ! k) - sz"
        by blast
      then have "size_mb (pre ! k) - sz \<le> size_mb (pre ! j) - sz"
        using j c by (simp add: best_at_def)
      then show ?thesis using k(2) by simp
    qed
  qed
  have "\<forall>j < length (pre @ [b]). sz \<le> size_mb ((pre @ [b]) ! j) \<longrightarrow>
          size_mb b - sz \<le> size_mb ((pre @ [b]) ! j) - sz"
  proof (intro allI impI)
    fix j assume j: "j < length (pre @ [b])" and c: "sz \<le> size_mb ((pre @ [b]) ! j)"
    show "size_mb b - sz \<le> size_mb ((pre @ [b]) ! j) - sz"
    proof (cases "j < length pre")
      case True
      then show ?thesis using lt [of j] c by (simp add: nth_append)
    next
      case False
      then have "j = length pre" using j by simp
      then show ?thesis by simp
    qed
  qed
  moreover have "\<forall>j < length pre. sz \<le> size_mb ((pre @ [b]) ! j) \<longrightarrow>
          size_mb b - sz < size_mb ((pre @ [b]) ! j) - sz"
    using lt by (simp add: nth_append)
  ultimately show ?thesis using assms(2) by (simp add: best_at_def)
qed

lemma best_fit_scan_inv:
  assumes "i = length pre"
    and "(chosen = None \<and> (\<forall>j < length pre. size_mb (pre ! j) < sz)) \<or>
         (\<exists>k. chosen = Some k \<and> best_at pre sz k \<and> min_gap = size_mb (pre ! k) - sz)"
  shows "(best_fit_scan sz bs i chosen min_gap = None \<and>
          (\<forall>j < length (pre @ bs). size_mb ((pre @ bs) ! j) < sz)) \<or>
         (\<exists>k. best_fit_scan sz bs i chosen min_gap = Some k \<and> best_at (pre @ bs) sz k)"
  using assms
proof (induction bs arbitrary: pre i chosen min_gap)
  case Nil
  then show ?case by auto
next
  case (Cons b bs)
  have len: "Suc i = length (pre @ [b])" using Cons.prems(1) by simp
  have app: "(pre @ [b]) @ bs = pre @ b # bs" by simp
  show ?case
  proof (cases "size_mb b < sz \<or> \<not> (chosen = None \<or> min_gap > size_mb b - sz)")
    case keep: True
    have inv: "(chosen = None \<and> (\<forall>j < length (pre @ [b]). size_mb ((pre @ [b]) ! j) < sz)) \<or>
         (\<exists>k. chosen = Some k \<and> best_at (pre @ [b]) sz k \<and> min_gap = size_mb ((pre @ [b]) ! k) - sz)"
    proof (cases chosen)
      case None
      then have "size_mb b < sz" using keep by simp
      then show ?thesis using Cons.prems(2) None by (simp add: nth_append less_Suc_eq)
    next
      case (Some k)
      then have k: "best_at pre sz k" "min_gap = size_mb (pre ! k) - sz"
        using Cons.prems(2) by simp_all
      have "best_at (pre @ [b]) sz k"
        using best_at_snoc_keep [OF k(1), of b] keep Some k(2) by auto
      moreover have "k < length pre" using k(1) by (simp add: best_at_def)
      ultimately show ?thesis using Some k(2) by (simp add: nth_append)
    qed
    have "best_fit_scan sz (b # bs) i chosen min_gap = best_fit_scan sz bs (Suc i) chosen min_gap"
      using keep by (auto simp: Let_def)
    then show ?thesis using Cons.IH [OF len inv] unfolding app by simp
  next
    case take: False
    then have big: "sz \<le> size_mb b" by (simp add: not_less)
    have "best_at (pre @ [b]) sz (length pre)"
    proof (rule best_at_snoc_take [OF _ big])
      show "(\<forall>j<length pre. size_mb (pre ! j) < sz) \<or>
            (\<exists>k. best_at pre sz k \<and> size_mb b - sz < size_mb (pre ! k) - sz)"
        using Cons.prems(2) take by auto
    qed
    then have inv: "(Some i = None \<and> (\<forall>j < length (pre @ [b]). size_mb ((pre @ [b]) ! j) < sz)) \<or>
         (\<exists>k. Some i = Some k \<and> best_at (pre @ [b]) sz k \<and>
              size_mb b - sz = size_mb ((pre @ [b]) ! k) - sz)"
      using Cons.prems(1) by simp
    have "best_fit_scan sz (b # bs) i chosen min_gap = best_fit_scan sz bs (Suc i) (Some i) (size_mb b - sz)"
      using take by (auto simp: Let_def)
    then show ?thesis using Cons.IH [OF len inv] unfolding app by simp
  qed
qed

lemma best_fit_scan_result:
  "(best_fit_scan sz fl 0 None 0 = None \<and> (\<forall>b \<in> set fl. size_mb b < sz)) \<or>
   (\<exists>k. best_fit_scan sz fl 0 None 0 = Some k \<and> best_at fl sz k)"
  using best_fit_scan_inv [of 0 "[]" None sz 0 fl] by (auto simp: in_set_conv_nth)

text \<open>
  C1, as the code has it. Under the best-fit strategy, on a free list that is not empty
  (the function's own assertion): when some free block is at least as large as the
  request, the allocation succeeds with a block that starts where the chosen free block
  started and has the requested size; the chosen block leaves the smallest gap of all
  blocks that are large enough and is the first such block in list order, so that it has
  the lowest start offset among them when the free list is sorted by ascending start
  offset; in the free list only the chosen block changes, its start advanced and its
  size reduced by the request. When no free block is large enough the result is
  \<open>NULL\<close> and the allocator is unchanged.
\<close>

theorem allocator_find_best_fit_correct:
  assumes "strategy a = BEST_FIT" and "free_list a \<noteq> []"
  shows "((\<exists>b \<in> set (free_list a). sz \<le> size_mb b) \<longrightarrow>
          (\<exists>k < length (free_list a).
             sz \<le> size_mb (free_list a ! k) \<and>
             (\<forall>j < length (free_list a). sz \<le> size_mb (free_list a ! j) \<longrightarrow>
                size_mb (free_list a ! k) - sz \<le> size_mb (free_list a ! j) - sz) \<and>
             (\<forall>j < length (free_list a). sz \<le> size_mb (free_list a ! j) \<and>
                size_mb (free_list a ! j) - sz = size_mb (free_list a ! k) - sz \<longrightarrow>
                k \<le> j \<and>
                (sorted_by_index (free_list a) \<longrightarrow>
                   index (free_list a ! k) \<le> index (free_list a ! j))) \<and>
             allocator_find_best_fit a sz =
               Inr (Some \<lparr>index = index (free_list a ! k), size_mb = sz\<rparr>,
                    a\<lparr>free_list := (free_list a)
                         [k := \<lparr>index = index (free_list a ! k) + sz,
                                size_mb = size_mb (free_list a ! k) - sz\<rparr>]\<rparr>))) \<and>
         ((\<forall>b \<in> set (free_list a). size_mb b < sz) \<longrightarrow>
          allocator_find_best_fit a sz = Inr (None, a))"
proof (intro conjI impI)
  assume ex: "\<exists>b \<in> set (free_list a). sz \<le> size_mb b"
  then have "\<not> (\<forall>b \<in> set (free_list a). size_mb b < sz)" by (auto simp: not_less)
  with best_fit_scan_result [of sz "free_list a"]
  obtain k where k: "best_fit_scan sz (free_list a) 0 None 0 = Some k" "best_at (free_list a) sz k"
    by blast
  have klen: "k < length (free_list a)" and kfit: "sz \<le> size_mb (free_list a ! k)"
    using k(2) by (simp_all add: best_at_def)
  have kmin: "\<forall>j < length (free_list a). sz \<le> size_mb (free_list a ! j) \<longrightarrow>
                size_mb (free_list a ! k) - sz \<le> size_mb (free_list a ! j) - sz"
    using k(2) by (simp add: best_at_def)
  have kfirst: "\<forall>j < k. sz \<le> size_mb (free_list a ! j) \<longrightarrow>
                size_mb (free_list a ! k) - sz < size_mb (free_list a ! j) - sz"
    using k(2) by (simp add: best_at_def)
  have tie: "\<forall>j < length (free_list a). sz \<le> size_mb (free_list a ! j) \<and>
                size_mb (free_list a ! j) - sz = size_mb (free_list a ! k) - sz \<longrightarrow>
                k \<le> j \<and>
                (sorted_by_index (free_list a) \<longrightarrow>
                   index (free_list a ! k) \<le> index (free_list a ! j))"
  proof (intro allI impI)
    fix j assume j: "j < length (free_list a)"
      and c: "sz \<le> size_mb (free_list a ! j) \<and>
              size_mb (free_list a ! j) - sz = size_mb (free_list a ! k) - sz"
    have kj: "k \<le> j"
    proof (rule ccontr)
      assume "\<not> k \<le> j"
      then have "j < k" by simp
      with kfirst c show False by auto
    qed
    have "index (free_list a ! k) \<le> index (free_list a ! j)"
      if srt: "sorted_by_index (free_list a)"
    proof -
      have "map index (free_list a) ! k \<le> map index (free_list a) ! j"
        using srt kj j unfolding sorted_by_index_def
        by (intro sorted_nth_mono) simp_all
      then show ?thesis using kj j klen by simp
    qed
    then show "k \<le> j \<and>
                (sorted_by_index (free_list a) \<longrightarrow>
                   index (free_list a ! k) \<le> index (free_list a ! j))"
      using kj by simp
  qed
  have rec: "(free_list a ! k)\<lparr>index := index (free_list a ! k) + sz,
                size_mb := size_mb (free_list a ! k) - sz\<rparr> =
             \<lparr>index = index (free_list a ! k) + sz, size_mb = size_mb (free_list a ! k) - sz\<rparr>"
    by simp
  have res: "allocator_find_best_fit a sz =
               Inr (Some \<lparr>index = index (free_list a ! k), size_mb = sz\<rparr>,
                    a\<lparr>free_list := (free_list a)
                         [k := \<lparr>index = index (free_list a ! k) + sz,
                                size_mb = size_mb (free_list a ! k) - sz\<rparr>]\<rparr>)"
    using assms(1,2) k(1) by (simp add: allocator_find_best_fit_def Let_def rec)
  show "\<exists>k < length (free_list a).
             sz \<le> size_mb (free_list a ! k) \<and>
             (\<forall>j < length (free_list a). sz \<le> size_mb (free_list a ! j) \<longrightarrow>
                size_mb (free_list a ! k) - sz \<le> size_mb (free_list a ! j) - sz) \<and>
             (\<forall>j < length (free_list a). sz \<le> size_mb (free_list a ! j) \<and>
                size_mb (free_list a ! j) - sz = size_mb (free_list a ! k) - sz \<longrightarrow>
                k \<le> j \<and>
                (sorted_by_index (free_list a) \<longrightarrow>
                   index (free_list a ! k) \<le> index (free_list a ! j))) \<and>
             allocator_find_best_fit a sz =
               Inr (Some \<lparr>index = index (free_list a ! k), size_mb = sz\<rparr>,
                    a\<lparr>free_list := (free_list a)
                         [k := \<lparr>index = index (free_list a ! k) + sz,
                                size_mb = size_mb (free_list a ! k) - sz\<rparr>]\<rparr>)"
    using klen kfit kmin tie res by blast
next
  assume none: "\<forall>b \<in> set (free_list a). size_mb b < sz"
  have "best_fit_scan sz (free_list a) 0 None 0 = None"
  proof (rule ccontr)
    assume "best_fit_scan sz (free_list a) 0 None 0 \<noteq> None"
    with best_fit_scan_result [of sz "free_list a"]
    obtain k where "best_at (free_list a) sz k" by auto
    then have "k < length (free_list a)" "sz \<le> size_mb (free_list a ! k)"
      by (simp_all add: best_at_def)
    with none show False by (auto simp: not_less [symmetric])
  qed
  then show "allocator_find_best_fit a sz = Inr (None, a)"
    using assms(1,2) by (simp add: allocator_find_best_fit_def)
qed

theorem allocator_find_best_fit_correct_witness:
  "strategy \<lparr>free_list = [\<lparr>index = 0, size_mb = 100\<rparr>, \<lparr>index = 200, size_mb = 60\<rparr>,
                          \<lparr>index = 300, size_mb = 60\<rparr>], strategy = BEST_FIT\<rparr> = BEST_FIT \<and>
   free_list \<lparr>free_list = [\<lparr>index = 0, size_mb = 100\<rparr>, \<lparr>index = 200, size_mb = 60\<rparr>,
                          \<lparr>index = 300, size_mb = 60\<rparr>], strategy = BEST_FIT\<rparr> \<noteq> [] \<and>
   sorted_by_index [\<lparr>index = 0, size_mb = 100\<rparr>, \<lparr>index = 200, size_mb = 60\<rparr>,
                    \<lparr>index = 300, size_mb = 60\<rparr>] \<and>
   allocator_find_best_fit
     \<lparr>free_list = [\<lparr>index = 0, size_mb = 100\<rparr>, \<lparr>index = 200, size_mb = 60\<rparr>,
                   \<lparr>index = 300, size_mb = 60\<rparr>], strategy = BEST_FIT\<rparr> 50 =
     Inr (Some \<lparr>index = 200, size_mb = 50\<rparr>,
          \<lparr>free_list = [\<lparr>index = 0, size_mb = 100\<rparr>, \<lparr>index = 250, size_mb = 10\<rparr>,
                        \<lparr>index = 300, size_mb = 60\<rparr>], strategy = BEST_FIT\<rparr>) \<and>
   allocator_find_best_fit
     \<lparr>free_list = [\<lparr>index = 0, size_mb = 100\<rparr>, \<lparr>index = 200, size_mb = 60\<rparr>,
                   \<lparr>index = 300, size_mb = 60\<rparr>], strategy = BEST_FIT\<rparr> 500 =
     Inr (None, \<lparr>free_list = [\<lparr>index = 0, size_mb = 100\<rparr>, \<lparr>index = 200, size_mb = 60\<rparr>,
                   \<lparr>index = 300, size_mb = 60\<rparr>], strategy = BEST_FIT\<rparr>)"
proof -
  let ?a = "\<lparr>free_list = [\<lparr>index = 0, size_mb = 100\<rparr>, \<lparr>index = 200, size_mb = 60\<rparr>,
                          \<lparr>index = 300, size_mb = 60\<rparr>], strategy = BEST_FIT\<rparr>"
  have h1: "strategy ?a = BEST_FIT" by simp
  have h2: "free_list ?a \<noteq> []" by simp
  have h3: "sorted_by_index (free_list ?a)" by (simp add: sorted_by_index_def)
  have fit: "\<exists>b \<in> set (free_list ?a). (50 :: 32 word) \<le> size_mb b" by simp
  have nofit: "\<forall>b \<in> set (free_list ?a). size_mb b < (500 :: 32 word)" by simp
  from allocator_find_best_fit_correct [OF h1 h2, of 50] fit
  obtain k where k: "k < length (free_list ?a)"
      "\<forall>j < length (free_list ?a). (50 :: 32 word) \<le> size_mb (free_list ?a ! j) \<longrightarrow>
                size_mb (free_list ?a ! k) - 50 \<le> size_mb (free_list ?a ! j) - 50"
      "\<forall>j < length (free_list ?a). (50 :: 32 word) \<le> size_mb (free_list ?a ! j) \<and>
                size_mb (free_list ?a ! j) - 50 = size_mb (free_list ?a ! k) - 50 \<longrightarrow>
                k \<le> j \<and>
                (sorted_by_index (free_list ?a) \<longrightarrow>
                   index (free_list ?a ! k) \<le> index (free_list ?a ! j))"
      "allocator_find_best_fit ?a 50 =
               Inr (Some \<lparr>index = index (free_list ?a ! k), size_mb = 50\<rparr>,
                    ?a\<lparr>free_list := (free_list ?a)
                         [k := \<lparr>index = index (free_list ?a ! k) + 50,
                                size_mb = size_mb (free_list ?a ! k) - 50\<rparr>]\<rparr>)"
    by blast
  from k(1) have "k = 0 \<or> k = 1 \<or> k = 2" by auto
  moreover have "k \<noteq> 0"
  proof
    assume "k = 0"
    with k(2) [rule_format, of 1] show False by simp
  qed
  moreover have "k \<noteq> 2"
  proof
    assume "k = 2"
    with k(3) [rule_format, of 1] show False by simp
  qed
  ultimately have "k = 1" by blast
  with k(4) have r1: "allocator_find_best_fit ?a 50 =
     Inr (Some \<lparr>index = 200, size_mb = 50\<rparr>,
          \<lparr>free_list = [\<lparr>index = 0, size_mb = 100\<rparr>, \<lparr>index = 250, size_mb = 10\<rparr>,
                        \<lparr>index = 300, size_mb = 60\<rparr>], strategy = BEST_FIT\<rparr>)"
    by simp
  from allocator_find_best_fit_correct [OF h1 h2, of 500] nofit
  have r2: "allocator_find_best_fit ?a 500 = Inr (None, ?a)" by blast
  show ?thesis using h1 h2 h3 r1 r2 by simp
qed


text \<open>
  A free list with zero-size blocks need not stay sorted. A request for no memory is
  granted a block of size zero; released into the single block of the whole pool it goes
  behind that block, and an allocation of the whole pool then moves the start of the
  first block past it.
\<close>

lemma zero_size_blocks_out_of_order:
  "reachable ae
     \<lparr>free_list = [\<lparr>index = 2048, size_mb = 0\<rparr>, \<lparr>index = 100, size_mb = 0\<rparr>],
      strategy = BEST_FIT\<rparr>
     [\<lparr>index = 0, size_mb = 2048\<rparr>]"
proof -
  let ?A = "\<lparr>index = 0, size_mb = 100 :: 32 word\<rparr>"
  let ?Z = "\<lparr>index = 100, size_mb = 0 :: 32 word\<rparr>"
  let ?G = "\<lparr>index = 0, size_mb = 2048 :: 32 word\<rparr>"
  have r0: "reachable ae \<lparr>free_list = [?G], strategy = BEST_FIT\<rparr> []"
    using reachable.init [of ae]
    by (simp add: allocator_initialise_def list_insert_head_def BUFFER_SIZE_def)
  have r1: "reachable ae \<lparr>free_list = [\<lparr>index = 100, size_mb = 1948\<rparr>], strategy = BEST_FIT\<rparr> [?A]"
    using reachable.allocate [OF r0, of 100 ?A]
    by (simp add: allocator_find_best_fit_def list_insert_tail_def)
  have r2: "reachable ae \<lparr>free_list = [\<lparr>index = 100, size_mb = 1948\<rparr>], strategy = BEST_FIT\<rparr>
              [?A, ?Z]"
    using reachable.allocate [OF r1, of 0 ?Z]
    by (simp add: allocator_find_best_fit_def list_insert_tail_def)
  have "release_block ae [\<lparr>index = 100, size_mb = 1948\<rparr>] ?A = [?G]"
    by (cases ae) (simp_all add: release_block_def mem_block_cmp_def)
  then have r3: "reachable ae \<lparr>free_list = [?G], strategy = BEST_FIT\<rparr> [?Z]"
    using reachable.release [OF r2, of 0] by (simp add: list_pop_node_def)
  have "release_block ae [?G] ?Z = [?G, ?Z]"
    by (cases ae) (simp_all add: release_block_def mem_block_cmp_def)
  then have r4: "reachable ae \<lparr>free_list = [?G, ?Z], strategy = BEST_FIT\<rparr> []"
    using reachable.release [OF r3, of 0] by (simp add: list_pop_node_def)
  show ?thesis
    using reachable.allocate [OF r4, of 2048 ?G]
    by (simp add: allocator_find_best_fit_def list_insert_tail_def)
qed

text \<open>
  In that state a request for no memory meets two blocks that leave the same gap, and is
  granted the first of the list, at 2048, not the one at the lower offset 100.
\<close>

theorem best_fit_tie_counterexample:
  "reachable True
     \<lparr>free_list = [\<lparr>index = 2048, size_mb = 0\<rparr>, \<lparr>index = 100, size_mb = 0\<rparr>],
      strategy = BEST_FIT\<rparr>
     [\<lparr>index = 0, size_mb = 2048\<rparr>] \<and>
   reachable False
     \<lparr>free_list = [\<lparr>index = 2048, size_mb = 0\<rparr>, \<lparr>index = 100, size_mb = 0\<rparr>],
      strategy = BEST_FIT\<rparr>
     [\<lparr>index = 0, size_mb = 2048\<rparr>] \<and>
   allocator_find_best_fit
     \<lparr>free_list = [\<lparr>index = 2048, size_mb = 0\<rparr>, \<lparr>index = 100, size_mb = 0\<rparr>],
      strategy = BEST_FIT\<rparr> 0 =
     Inr (Some \<lparr>index = 2048, size_mb = 0\<rparr>,
          \<lparr>free_list = [\<lparr>index = 2048, size_mb = 0\<rparr>, \<lparr>index = 100, size_mb = 0\<rparr>],
           strategy = BEST_FIT\<rparr>) \<and>
   (0 :: 32 word) \<le> size_mb \<lparr>index = 100, size_mb = 0\<rparr> \<and>
   size_mb \<lparr>index = 100, size_mb = 0\<rparr> - 0 = size_mb \<lparr>index = 2048, size_mb = 0\<rparr> - (0 :: 32 word) \<and>
   index \<lparr>index = 100, size_mb = 0\<rparr> < index \<lparr>index = 2048, size_mb = (0 :: 32 word)\<rparr> \<and>
   \<not> sorted_by_index [\<lparr>index = 2048, size_mb = 0\<rparr>, \<lparr>index = 100, size_mb = 0\<rparr>]"
proof -
  have a: "allocator_find_best_fit
     \<lparr>free_list = [\<lparr>index = 2048, size_mb = 0\<rparr>, \<lparr>index = 100, size_mb = 0\<rparr>],
      strategy = BEST_FIT\<rparr> 0 =
     Inr (Some \<lparr>index = 2048, size_mb = 0\<rparr>,
          \<lparr>free_list = [\<lparr>index = 2048, size_mb = 0\<rparr>, \<lparr>index = 100, size_mb = 0\<rparr>],
           strategy = BEST_FIT\<rparr>)"
    by (simp add: allocator_find_best_fit_def Let_def)
  have lt: "(100 :: 32 word) < 2048" by (simp add: word_less_nat_alt)
  then have ns: "\<not> sorted_by_index [\<lparr>index = 2048, size_mb = 0\<rparr>, \<lparr>index = 100, size_mb = 0\<rparr>]"
    by (simp add: sorted_by_index_def not_le)
  show ?thesis
    using zero_size_blocks_out_of_order [of True] zero_size_blocks_out_of_order [of False] a lt ns
    by simp
qed

section \<open>The pool is partitioned\<close>

lemma cover_Nil [simp]: "cover [] = {#}"
  by (simp add: cover_def)

lemma cover_Cons [simp]: "cover (b # bs) = cells b + cover bs"
  by (simp add: cover_def)

lemma cover_append [simp]: "cover (xs @ ys) = cover xs + cover ys"
  by (simp add: cover_def)

lemma cover_mset: "cover bs = sum_mset (image_mset cells (mset bs))"
  by (induction bs) simp_all

lemma cover_cong: "mset xs = mset ys \<Longrightarrow> cover xs = cover ys"
  by (simp add: cover_mset)

lemma size_cells [simp]: "size (cells b) = unat (size_mb b)"
  by (simp add: cells_def block_end_def)

lemma size_cover: "size (cover bs) = sum_list (map (unat \<circ> size_mb) bs)"
  by (induction bs) simp_all

lemma cells_split:
  assumes "i \<le> m" and "m \<le> e"
  shows "mset [i ..< m] + mset [m ..< e] = mset [i ..< e]"
proof -
  have "[i ..< e] = [i ..< m] @ [m ..< e]"
    using assms by (metis le_Suc_ex upt_add_eq_append)
  then show ?thesis by simp
qed

lemma mset_list_insert_sorted:
  "mset (list_insert_sorted ae cmp xs x) = add_mset x (mset xs)"
  by (induction xs) simp_all

lemma set_list_insert_sorted:
  "set (list_insert_sorted ae cmp xs x) = insert x (set xs)"
  by (induction xs) auto

lemma list_insert_sorted_not_Nil: "list_insert_sorted ae cmp xs x \<noteq> []"
  by (cases xs) simp_all

lemma merge_adjacent_not_Nil: "bs \<noteq> [] \<Longrightarrow> merge_adjacent bs \<noteq> []"
  by (induction bs rule: merge_adjacent.induct) auto

lemma unat_BUFFER_SIZE_lt: "unat BUFFER_SIZE < 2 ^ 32"
  using unsigned_less [of BUFFER_SIZE, where ?'a = nat] by simp

lemma unat_add32:
  fixes x y :: "32 word"
  shows "unat x + unat y < 2 ^ 32 \<Longrightarrow> unat (x + y) = unat x + unat y"
  using unat_add_lem [of x y] by simp

text \<open>Two blocks that the merging loop joins, and the block it makes of them.\<close>

lemma merge_two:
  assumes adj: "index b1 + size_mb b1 = index b2"
    and e1: "block_end b1 \<le> unat BUFFER_SIZE" and e2: "block_end b2 \<le> unat BUFFER_SIZE"
  shows "cells (b2\<lparr>index := index b2 - size_mb b1, size_mb := size_mb b2 + size_mb b1\<rparr>) =
           cells b1 + cells b2"
    and "block_end (b2\<lparr>index := index b2 - size_mb b1, size_mb := size_mb b2 + size_mb b1\<rparr>) =
           block_end b2"
proof -
  have lt1: "unat (index b1) + unat (size_mb b1) < 2 ^ 32"
    using e1 unat_BUFFER_SIZE_lt by (simp add: block_end_def)
  have i2: "unat (index b2) = unat (index b1) + unat (size_mb b1)"
    using unat_add32 [OF lt1] adj by simp
  have lt2: "unat (size_mb b2) + unat (size_mb b1) < 2 ^ 32"
    using e2 unat_BUFFER_SIZE_lt i2 by (simp add: block_end_def)
  have s: "unat (size_mb b2 + size_mb b1) = unat (size_mb b2) + unat (size_mb b1)"
    using lt2 by (rule unat_add32)
  have i: "index b2 - size_mb b1 = index b1"
    using adj by (simp add: algebra_simps eq_diff_eq)
  let ?m = "b2\<lparr>index := index b2 - size_mb b1, size_mb := size_mb b2 + size_mb b1\<rparr>"
  have ci: "unat (index ?m) = unat (index b1)" using i by simp
  show ce: "block_end ?m = block_end b2"
    using i s i2 by (simp add: block_end_def)
  have b1: "block_end b1 = unat (index b2)"
    by (simp only: block_end_def i2)
  have "cells ?m = mset [unat (index ?m) ..< block_end ?m]"
    by (simp only: cells_def)
  also have "\<dots> = mset [unat (index b1) ..< block_end b2]"
    by (simp only: ci ce)
  also have "\<dots> = mset [unat (index b1) ..< unat (index b2)] +
                     mset [unat (index b2) ..< block_end b2]"
    by (rule cells_split [symmetric]) (simp_all add: i2 block_end_def)
  also have "\<dots> = cells b1 + cells b2"
    by (simp only: cells_def b1)
  finally show "cells ?m = cells b1 + cells b2" .
qed

lemma merge_adjacent_cover:
  "\<forall>b \<in> set bs. block_end b \<le> unat BUFFER_SIZE \<Longrightarrow>
   cover (merge_adjacent bs) = cover bs \<and>
   (\<forall>b \<in> set (merge_adjacent bs). block_end b \<le> unat BUFFER_SIZE)"
proof (induction bs rule: merge_adjacent.induct)
  case (1 b1 b2 bs)
  show ?case
  proof (cases "index b1 + size_mb b1 = index b2")
    case True
    let ?m = "b2\<lparr>index := index b2 - size_mb b1, size_mb := size_mb b2 + size_mb b1\<rparr>"
    have e1: "block_end b1 \<le> unat BUFFER_SIZE" and e2: "block_end b2 \<le> unat BUFFER_SIZE"
      using "1.prems" by simp_all
    have m: "cells ?m = cells b1 + cells b2" "block_end ?m = block_end b2"
      using merge_two [OF True e1 e2] by simp_all
    have "\<forall>b \<in> set (?m # bs). block_end b \<le> unat BUFFER_SIZE"
      using "1.prems" m(2) by simp
    from "1.IH"(1) [OF True this] True m(1) show ?thesis by simp
  next
    case False
    have "\<forall>b \<in> set (b2 # bs). block_end b \<le> unat BUFFER_SIZE"
      using "1.prems" by simp
    from "1.IH"(2) [OF False this] False "1.prems" show ?thesis by simp
  qed
qed simp_all

lemma release_block_inv:
  assumes "pool_inv (fl @ owned)" and "i < length owned"
  shows "pool_inv (release_block ae fl (owned ! i) @ list_pop_node owned i)"
proof -
  let ?ins = "list_insert_sorted ae mem_block_cmp fl (owned ! i)"
  have o: "owned = take i owned @ owned ! i # drop (Suc i) owned"
    using assms(2) by (rule id_take_nth_drop)
  have "mset (owned ! i # list_pop_node owned i) = mset owned"
    using arg_cong [OF o, of mset] by (simp add: list_pop_node_def)
  then have ms: "mset (?ins @ list_pop_node owned i) = mset (fl @ owned)"
    by (simp add: mset_list_insert_sorted)
  have bnd: "\<forall>b \<in> set (?ins @ list_pop_node owned i). block_end b \<le> unat BUFFER_SIZE"
    using assms(1) mset_eq_setD [OF ms] by (simp add: pool_inv_def)
  then have "\<forall>b \<in> set ?ins. block_end b \<le> unat BUFFER_SIZE" by simp
  from merge_adjacent_cover [OF this]
  have "cover (merge_adjacent ?ins) = cover ?ins"
    "\<forall>b \<in> set (merge_adjacent ?ins). block_end b \<le> unat BUFFER_SIZE" by simp_all
  moreover have "cover (?ins @ list_pop_node owned i) = cover (fl @ owned)"
    using ms by (rule cover_cong)
  ultimately show ?thesis
    using assms(1) bnd by (auto simp: pool_inv_def release_block_def)
qed

lemma allocator_find_best_fit_Some:
  assumes "allocator_find_best_fit a sz = Inr (Some g, a')"
  shows "\<exists>k < length (free_list a).
           sz \<le> size_mb (free_list a ! k) \<and>
           g = \<lparr>index = index (free_list a ! k), size_mb = sz\<rparr> \<and>
           a' = a\<lparr>free_list := (free_list a)
                  [k := \<lparr>index = index (free_list a ! k) + sz,
                         size_mb = size_mb (free_list a ! k) - sz\<rparr>]\<rparr>"
proof -
  from assms have s: "strategy a \<noteq> INFINITE" and n: "free_list a \<noteq> []"
    by (auto simp: allocator_find_best_fit_def split: if_splits)
  from assms s n obtain k where k: "best_fit_scan sz (free_list a) 0 None 0 = Some k"
    by (cases "best_fit_scan sz (free_list a) 0 None 0")
       (auto simp: allocator_find_best_fit_def)
  with best_fit_scan_result [of sz "free_list a"] have b: "best_at (free_list a) sz k"
    by auto
  have rec: "(free_list a ! k)\<lparr>index := index (free_list a ! k) + sz,
                size_mb := size_mb (free_list a ! k) - sz\<rparr> =
             \<lparr>index = index (free_list a ! k) + sz, size_mb = size_mb (free_list a ! k) - sz\<rparr>"
    by simp
  from assms s n k have "g = \<lparr>index = index (free_list a ! k), size_mb = sz\<rparr>"
    and "a' = a\<lparr>free_list := (free_list a)
                  [k := \<lparr>index = index (free_list a ! k) + sz,
                         size_mb = size_mb (free_list a ! k) - sz\<rparr>]\<rparr>"
    by (simp_all add: allocator_find_best_fit_def Let_def rec)
  with b show ?thesis by (auto simp: best_at_def)
qed

lemma allocator_find_best_fit_None:
  "allocator_find_best_fit a sz = Inr (None, a') \<Longrightarrow> a' = a"
  by (auto simp: allocator_find_best_fit_def Let_def split: if_splits option.splits)

text \<open>Carving a request off the low end of a block.\<close>

lemma carve:
  assumes fit: "sz \<le> size_mb c" and e: "block_end c \<le> unat BUFFER_SIZE"
  shows "cells \<lparr>index = index c, size_mb = sz\<rparr> +
         cells \<lparr>index = index c + sz, size_mb = size_mb c - sz\<rparr> = cells c"
    and "block_end \<lparr>index = index c, size_mb = sz\<rparr> \<le> unat BUFFER_SIZE"
    and "block_end \<lparr>index = index c + sz, size_mb = size_mb c - sz\<rparr> = block_end c"
proof -
  have le: "unat sz \<le> unat (size_mb c)" using fit by (simp add: word_le_nat_alt)
  have "unat (index c) + unat sz < 2 ^ 32"
    using le e unat_BUFFER_SIZE_lt by (simp add: block_end_def)
  then have i: "unat (index c + sz) = unat (index c) + unat sz" by (rule unat_add32)
  have s: "unat (size_mb c - sz) = unat (size_mb c) - unat sz" using fit by (rule unat_sub)
  show "block_end \<lparr>index = index c, size_mb = sz\<rparr> \<le> unat BUFFER_SIZE"
    using le e by (simp add: block_end_def)
  show ce: "block_end \<lparr>index = index c + sz, size_mb = size_mb c - sz\<rparr> = block_end c"
    using le i s by (simp add: block_end_def)
  have g: "cells \<lparr>index = index c, size_mb = sz\<rparr> =
           mset [unat (index c) ..< unat (index c) + unat sz]"
    by (simp only: cells_def block_end_def memory_block.simps)
  have r: "cells \<lparr>index = index c + sz, size_mb = size_mb c - sz\<rparr> =
           mset [unat (index c) + unat sz ..< block_end c]"
    by (simp only: cells_def ce memory_block.simps i)
  have "mset [unat (index c) ..< unat (index c) + unat sz] +
        mset [unat (index c) + unat sz ..< block_end c] = mset [unat (index c) ..< block_end c]"
    by (rule cells_split) (use le in \<open>simp_all add: block_end_def\<close>)
  then show "cells \<lparr>index = index c, size_mb = sz\<rparr> +
         cells \<lparr>index = index c + sz, size_mb = size_mb c - sz\<rparr> = cells c"
    unfolding g r by (simp only: cells_def)
qed

lemma allocate_inv:
  assumes inv: "pool_inv (free_list a @ owned)"
    and al: "allocator_find_best_fit a sz = Inr (Some g, a')"
  shows "pool_inv (free_list a' @ list_insert_tail owned g)"
proof -
  from allocator_find_best_fit_Some [OF al] obtain k where
    k: "k < length (free_list a)" and fit: "sz \<le> size_mb (free_list a ! k)"
    and g: "g = \<lparr>index = index (free_list a ! k), size_mb = sz\<rparr>"
    and a': "a' = a\<lparr>free_list := (free_list a)
                  [k := \<lparr>index = index (free_list a ! k) + sz,
                         size_mb = size_mb (free_list a ! k) - sz\<rparr>]\<rparr>"
    by blast
  let ?c = "free_list a ! k"
  let ?r = "\<lparr>index = index ?c + sz, size_mb = size_mb ?c - sz\<rparr>"
  have e: "block_end ?c \<le> unat BUFFER_SIZE"
    using inv k by (simp add: pool_inv_def)
  note cv = carve [OF fit e]
  have fl: "free_list a = take k (free_list a) @ ?c # drop (Suc k) (free_list a)"
    using k by (rule id_take_nth_drop)
  have fl': "free_list a' = take k (free_list a) @ ?r # drop (Suc k) (free_list a)"
    using k a' by (simp add: upd_conv_take_nth_drop)
  have "cover (free_list a) =
          cover (take k (free_list a)) + cells ?c + cover (drop (Suc k) (free_list a))"
    using arg_cong [OF fl, of cover] by (simp add: add.assoc)
  moreover have "cover (free_list a') =
          cover (take k (free_list a)) + cells ?r + cover (drop (Suc k) (free_list a))"
    using fl' by (simp add: add.assoc)
  ultimately have "cover (free_list a') + cells g = cover (free_list a)"
    using cv(1) g by (simp add: ac_simps)
  then have c: "cover (free_list a' @ list_insert_tail owned g) = cover (free_list a @ owned)"
    by (simp add: list_insert_tail_def ac_simps)
  have "set (free_list a') \<subseteq> insert ?r (set (free_list a))"
    using a' by (simp add: set_update_subset_insert)
  then have "\<forall>b \<in> set (free_list a'). block_end b \<le> unat BUFFER_SIZE"
    using inv cv(3) e by (auto simp: pool_inv_def)
  then have "\<forall>b \<in> set (free_list a' @ list_insert_tail owned g). block_end b \<le> unat BUFFER_SIZE"
    using inv cv(2) g by (auto simp: pool_inv_def list_insert_tail_def)
  with c inv show ?thesis by (simp add: pool_inv_def)
qed

lemma reachable_inv:
  "reachable ae a owned \<Longrightarrow>
   pool_inv (free_list a @ owned) \<and> strategy a = BEST_FIT \<and> free_list a \<noteq> []"
proof (induction rule: reachable.induct)
  case init
  show ?case
    by (simp add: allocator_initialise_def list_insert_head_def pool_inv_def cells_def
        block_end_def)
next
  case (allocate a owned sz g a')
  from allocator_find_best_fit_Some [OF allocate.hyps(2)]
  have "strategy a' = strategy a" and "length (free_list a') = length (free_list a)"
    by auto
  with allocate.IH allocate_inv [OF _ allocate.hyps(2), of owned] show ?case
    by auto
next
  case (release a owned i)
  have "release_block ae (free_list a) (owned ! i) \<noteq> []"
    unfolding release_block_def
    by (rule merge_adjacent_not_Nil) (rule list_insert_sorted_not_Nil)
  with release.IH release_block_inv [OF _ release.hyps(2), of "free_list a" ae]
  show ?case by simp
qed

lemma cells_sub_cover: "k < length xs \<Longrightarrow> cells (xs ! k) \<subseteq># cover xs"
proof -
  assume "k < length xs"
  then have "xs = take k xs @ xs ! k # drop (Suc k) xs" by (rule id_take_nth_drop)
  then have "cover xs = cover (take k xs) + (cells (xs ! k) + cover (drop (Suc k) xs))"
    using cover_append [of "take k xs" "xs ! k # drop (Suc k) xs"] by simp
  then show ?thesis by simp
qed

lemma cover_count_pair:
  assumes "i < j" and "j < length bs"
  shows "count (cells (bs ! i)) x + count (cells (bs ! j)) x \<le> count (cover bs) x"
proof -
  have "bs = take j bs @ bs ! j # drop (Suc j) bs" using assms(2) by (rule id_take_nth_drop)
  then have c: "cover bs = cover (take j bs) + (cells (bs ! j) + cover (drop (Suc j) bs))"
    using cover_append [of "take j bs" "bs ! j # drop (Suc j) bs"] by simp
  have "cells (take j bs ! i) \<subseteq># cover (take j bs)"
    using assms by (intro cells_sub_cover) simp
  then have "count (cells (bs ! i)) x \<le> count (cover (take j bs)) x"
    using assms(1) by (simp add: mset_subset_eq_count)
  then show ?thesis by (simp add: c)
qed

lemma overlap_common_cell:
  assumes "overlap b1 b2"
  shows "\<exists>x. count (cells b1) x = 1 \<and> count (cells b2) x = 1"
proof -
  let ?x = "max (unat (index b1)) (unat (index b2))"
  have "?x \<in> set [unat (index b1) ..< block_end b1]" "?x \<in> set [unat (index b2) ..< block_end b2]"
    using assms by (simp_all add: overlap_def)
  then have "count (cells b1) ?x = 1 \<and> count (cells b2) ?x = 1"
    unfolding cells_def by (simp add: distinct_count_atmost_1 [THEN iffD1])
  then show ?thesis ..
qed

lemma pool_inv_no_overlap:
  assumes "pool_inv bs" and "i < j" and "j < length bs"
  shows "\<not> overlap (bs ! i) (bs ! j)"
proof
  assume "overlap (bs ! i) (bs ! j)"
  then obtain x where "count (cells (bs ! i)) x = 1" "count (cells (bs ! j)) x = 1"
    using overlap_common_cell by blast
  with cover_count_pair [OF assms(2,3), of x] have "2 \<le> count (cover bs) x" by simp
  moreover have "count (mset [0 ..< unat BUFFER_SIZE]) x =
      (if x \<in> set [0 ..< unat BUFFER_SIZE] then 1 else 0)"
    using distinct_upt [of 0 "unat BUFFER_SIZE"] unfolding distinct_count_atmost_1 by blast
  moreover have "cover bs = mset [0 ..< unat BUFFER_SIZE]"
    using assms(1) by (simp only: pool_inv_def)
  ultimately show False by (simp del: mset_upt split: if_splits)
qed

lemma pool_inv_sum:
  assumes "pool_inv (fl @ owned)"
  shows "sum_list (map (unat \<circ> size_mb) fl) + sum_list (map (unat \<circ> size_mb) owned) = 2048"
proof -
  have "size (cover (fl @ owned)) = size (mset [0 ..< unat BUFFER_SIZE])"
    using assms by (simp add: pool_inv_def)
  then show ?thesis
    by (simp add: size_cover BUFFER_SIZE_def del: cover_append)
qed

text \<open>
  C3. Under the best-fit strategy, in every state the allocator reaches from the single
  block of the whole pool by allocations and releases, the sizes of the free blocks and
  of the blocks held by the processes that have not finished add up to the capacity of
  the pool, 2048, and no two of these blocks share an address.
\<close>

theorem pool_partitioned:
  assumes "reachable after_equal a owned"
  shows "sum_list (map (unat \<circ> size_mb) (free_list a)) +
           sum_list (map (unat \<circ> size_mb) owned) = 2048 \<and>
         (\<forall>i j. i < j \<and> j < length (free_list a @ owned) \<longrightarrow>
            \<not> overlap ((free_list a @ owned) ! i) ((free_list a @ owned) ! j))"
proof -
  have inv: "pool_inv (free_list a @ owned)"
    using reachable_inv [OF assms] by simp
  show ?thesis
    using pool_inv_sum [OF inv] pool_inv_no_overlap [OF inv] by blast
qed

theorem pool_partitioned_witness:
  "reachable True \<lparr>free_list = [\<lparr>index = 100, size_mb = 1948\<rparr>], strategy = BEST_FIT\<rparr>
     [\<lparr>index = 0, size_mb = 100\<rparr>] \<and>
   sum_list (map (unat \<circ> size_mb) [\<lparr>index = 100, size_mb = 1948\<rparr>]) +
     sum_list (map (unat \<circ> size_mb) [\<lparr>index = 0, size_mb = 100\<rparr>]) = 2048 \<and>
   \<not> overlap \<lparr>index = 100, size_mb = 1948\<rparr> \<lparr>index = 0, size_mb = 100\<rparr>"
proof -
  let ?a = "\<lparr>free_list = [\<lparr>index = 100, size_mb = 1948\<rparr>], strategy = BEST_FIT\<rparr>"
  let ?g = "\<lparr>index = 0, size_mb = 100 :: 32 word\<rparr>"
  have al: "allocator_find_best_fit (allocator_initialise BEST_FIT) 100 = Inr (Some ?g, ?a)"
    by (simp add: allocator_find_best_fit_def allocator_initialise_def list_insert_head_def
        BUFFER_SIZE_def)
  have r: "reachable True ?a [?g]"
    using reachable.allocate [OF reachable.init al, of True] by (simp add: list_insert_tail_def)
  from pool_partitioned [OF r]
  have s: "sum_list (map (unat \<circ> size_mb) (free_list ?a)) +
           sum_list (map (unat \<circ> size_mb) [?g]) = 2048"
    and o: "\<forall>i j. i < j \<and> j < length (free_list ?a @ [?g]) \<longrightarrow>
            \<not> overlap ((free_list ?a @ [?g]) ! i) ((free_list ?a @ [?g]) ! j)"
    by blast+
  from o [rule_format, of 0 1] have "\<not> overlap \<lparr>index = 100, size_mb = 1948\<rparr> ?g" by simp
  with r s show ?thesis by simp
qed

text \<open>
  C10, as the code has it. Under the best-fit strategy an allocation never removes an
  entry of the free list: the list keeps its length, and only the chosen block changes.
  When the request is exactly the size of the chosen block, a block of size zero stays
  in its place, at the end offset of the block handed out. So the free list is not empty
  in any state the allocator reaches, also when the whole pool is handed out (then every
  free block has size zero). Releasing the block handed out into a free list that holds
  only its zero-size remainder gives the original block back: the merging loop absorbs
  the remainder.
\<close>

theorem free_list_never_empty:
  "(allocator_find_best_fit a sz = Inr (r, a') \<longrightarrow>
      length (free_list a') = length (free_list a)) \<and>
   (allocator_find_best_fit a sz = Inr (Some g, a') \<longrightarrow>
      (\<exists>k < length (free_list a).
         index (free_list a ! k) = index g \<and> size_mb g = sz \<and> sz \<le> size_mb (free_list a ! k) \<and>
         free_list a' = (free_list a)
           [k := \<lparr>index = index g + sz, size_mb = size_mb (free_list a ! k) - sz\<rparr>] \<and>
         (size_mb (free_list a ! k) = sz \<longrightarrow>
            free_list a' ! k = \<lparr>index = index g + size_mb g, size_mb = 0\<rparr>))) \<and>
   (reachable after_equal a owned \<longrightarrow> free_list a \<noteq> []) \<and>
   (reachable after_equal a owned \<and> sum_list (map (unat \<circ> size_mb) owned) = 2048 \<longrightarrow>
      free_list a \<noteq> [] \<and> (\<forall>b \<in> set (free_list a). size_mb b = 0)) \<and>
   (unat i + unat s < 2 ^ 32 \<longrightarrow>
      release_block after_equal [\<lparr>index = i + s, size_mb = 0\<rparr>] \<lparr>index = i, size_mb = s\<rparr> =
        [\<lparr>index = i, size_mb = s\<rparr>])"
proof (intro conjI impI)
  assume al: "allocator_find_best_fit a sz = Inr (r, a')"
  show "length (free_list a') = length (free_list a)"
  proof (cases r)
    case None
    with al show ?thesis using allocator_find_best_fit_None by blast
  next
    case (Some g)
    with allocator_find_best_fit_Some [of a sz g a'] al show ?thesis by auto
  qed
next
  assume al: "allocator_find_best_fit a sz = Inr (Some g, a')"
  from allocator_find_best_fit_Some [OF al] obtain k where
    k: "k < length (free_list a)" and fit: "sz \<le> size_mb (free_list a ! k)"
    and g: "g = \<lparr>index = index (free_list a ! k), size_mb = sz\<rparr>"
    and a': "a' = a\<lparr>free_list := (free_list a)
                  [k := \<lparr>index = index (free_list a ! k) + sz,
                         size_mb = size_mb (free_list a ! k) - sz\<rparr>]\<rparr>"
    by blast
  have "index (free_list a ! k) = index g \<and> size_mb g = sz \<and> sz \<le> size_mb (free_list a ! k) \<and>
         free_list a' = (free_list a)
           [k := \<lparr>index = index g + sz, size_mb = size_mb (free_list a ! k) - sz\<rparr>] \<and>
         (size_mb (free_list a ! k) = sz \<longrightarrow>
            free_list a' ! k = \<lparr>index = index g + size_mb g, size_mb = 0\<rparr>)"
    using k fit g a' by simp
  with k show "\<exists>k < length (free_list a).
         index (free_list a ! k) = index g \<and> size_mb g = sz \<and> sz \<le> size_mb (free_list a ! k) \<and>
         free_list a' = (free_list a)
           [k := \<lparr>index = index g + sz, size_mb = size_mb (free_list a ! k) - sz\<rparr>] \<and>
         (size_mb (free_list a ! k) = sz \<longrightarrow>
            free_list a' ! k = \<lparr>index = index g + size_mb g, size_mb = 0\<rparr>)"
    by blast
next
  assume "reachable after_equal a owned"
  then show "free_list a \<noteq> []" using reachable_inv by blast
next
  assume "reachable after_equal a owned \<and> sum_list (map (unat \<circ> size_mb) owned) = 2048"
  then show "free_list a \<noteq> []" using reachable_inv by blast
next
  assume h: "reachable after_equal a owned \<and> sum_list (map (unat \<circ> size_mb) owned) = 2048"
  then have "pool_inv (free_list a @ owned)" using reachable_inv by blast
  from pool_inv_sum [OF this] h have z: "sum_list (map (unat \<circ> size_mb) (free_list a)) = 0"
    by simp
  show "\<forall>b \<in> set (free_list a). size_mb b = 0"
  proof
    fix b assume "b \<in> set (free_list a)"
    then have "(unat \<circ> size_mb) b \<in> set (map (unat \<circ> size_mb) (free_list a))" by simp
    with z have "(unat \<circ> size_mb) b = 0" by (simp only: sum_list_eq_0_iff)
    then show "size_mb b = 0" by (simp add: unat_eq_0)
  qed
next
  assume nw: "unat i + unat s < 2 ^ 32"
  have le: "i \<le> i + s"
    using nw no_plus_overflow_unat_size [of i s] by (simp add: word_size)
  have ins: "list_insert_sorted after_equal mem_block_cmp [\<lparr>index = i + s, size_mb = 0\<rparr>]
               \<lparr>index = i, size_mb = s\<rparr> =
             [\<lparr>index = i, size_mb = s\<rparr>, \<lparr>index = i + s, size_mb = 0\<rparr>]"
  proof (cases "s = 0")
    case True
    then show ?thesis by (simp add: mem_block_cmp_def)
  next
    case False
    with le have "i < i + s" by (simp add: less_le)
    moreover have "\<not> i + s < i" using le by (simp add: not_less)
    ultimately show ?thesis by (simp add: mem_block_cmp_def)
  qed
  show "release_block after_equal [\<lparr>index = i + s, size_mb = 0\<rparr>] \<lparr>index = i, size_mb = s\<rparr> =
        [\<lparr>index = i, size_mb = s\<rparr>]"
    unfolding release_block_def ins by simp
qed

theorem free_list_never_empty_witness:
  "allocator_find_best_fit \<lparr>free_list = [\<lparr>index = 0, size_mb = 2048\<rparr>], strategy = BEST_FIT\<rparr> 2048 =
     Inr (Some \<lparr>index = 0, size_mb = 2048\<rparr>,
          \<lparr>free_list = [\<lparr>index = 2048, size_mb = 0\<rparr>], strategy = BEST_FIT\<rparr>) \<and>
   length [\<lparr>index = 2048, size_mb = 0 :: 32 word\<rparr>] = length [\<lparr>index = 0, size_mb = 2048 :: 32 word\<rparr>] \<and>
   reachable True \<lparr>free_list = [\<lparr>index = 2048, size_mb = 0\<rparr>], strategy = BEST_FIT\<rparr>
     [\<lparr>index = 0, size_mb = 2048\<rparr>] \<and>
   sum_list (map (unat \<circ> size_mb) [\<lparr>index = 0, size_mb = 2048\<rparr>]) = 2048 \<and>
   [\<lparr>index = 2048, size_mb = 0 :: 32 word\<rparr>] \<noteq> [] \<and>
   unat (0 :: 32 word) + unat (2048 :: 32 word) < 2 ^ 32 \<and>
   release_block True [\<lparr>index = 2048, size_mb = 0\<rparr>] \<lparr>index = 0, size_mb = 2048\<rparr> =
     [\<lparr>index = 0, size_mb = 2048\<rparr>]"
proof -
  let ?a0 = "\<lparr>free_list = [\<lparr>index = 0, size_mb = 2048\<rparr>], strategy = BEST_FIT\<rparr>"
  let ?a1 = "\<lparr>free_list = [\<lparr>index = 2048, size_mb = 0\<rparr>], strategy = BEST_FIT\<rparr>"
  let ?g = "\<lparr>index = 0, size_mb = 2048 :: 32 word\<rparr>"
  have a0: "allocator_initialise BEST_FIT = ?a0"
    by (simp add: allocator_initialise_def list_insert_head_def BUFFER_SIZE_def)
  have al: "allocator_find_best_fit ?a0 2048 = Inr (Some ?g, ?a1)"
    by (simp add: allocator_find_best_fit_def)
  have r: "reachable True ?a1 [?g]"
    using reachable.allocate [OF reachable.init, of 2048 ?g ?a1 True] al
    by (simp add: list_insert_tail_def a0)
  have s: "sum_list (map (unat \<circ> size_mb) [?g]) = 2048" by simp
  have nw: "unat (0 :: 32 word) + unat (2048 :: 32 word) < 2 ^ 32" by simp
  note t = free_list_never_empty [of ?a0 2048 "Some ?g" ?a1 ?g True "[?g]" 0 2048]
  have "length (free_list ?a1) = length (free_list ?a0)"
    by (rule t [THEN conjunct1, THEN mp, OF al])
  moreover have "free_list ?a1 \<noteq> []"
    by (rule free_list_never_empty [of ?a1 0 None ?a1 ?g True "[?g]" 0 0,
          THEN conjunct2, THEN conjunct2, THEN conjunct1, THEN mp, OF r])
  moreover have "release_block True [\<lparr>index = 0 + 2048, size_mb = 0\<rparr>] ?g = [?g]"
    by (rule t [THEN conjunct2, THEN conjunct2, THEN conjunct2, THEN conjunct2, THEN mp, OF nw])
  ultimately show ?thesis using al r s nw by simp
qed


text \<open>
  The zero-size remainder of an exact fit is not always taken up again. With a
  zero-size block of a program that asked for no memory in front of it, the remainder at
  2048 of the allocation of the whole pool is still in the free list after that
  allocation has been released, and after every block has been released.
\<close>

lemma remainder_left_steps:
  "reachable ae \<lparr>free_list = [\<lparr>index = 0, size_mb = 2048\<rparr>], strategy = BEST_FIT\<rparr>
     [\<lparr>index = 100, size_mb = 0\<rparr>] \<and>
   reachable ae
     \<lparr>free_list = [\<lparr>index = 100, size_mb = 0\<rparr>, \<lparr>index = 2048, size_mb = 0\<rparr>],
      strategy = BEST_FIT\<rparr>
     [\<lparr>index = 0, size_mb = 2048\<rparr>] \<and>
   release_block ae [\<lparr>index = 100, size_mb = 0\<rparr>, \<lparr>index = 2048, size_mb = 0\<rparr>]
     \<lparr>index = 0, size_mb = 2048\<rparr> =
     [\<lparr>index = 0, size_mb = 2048\<rparr>, \<lparr>index = 100, size_mb = 0\<rparr>,
      \<lparr>index = 2048, size_mb = 0\<rparr>] \<and>
   reachable ae
     \<lparr>free_list = [\<lparr>index = 0, size_mb = 2048\<rparr>, \<lparr>index = 100, size_mb = 0\<rparr>,
                   \<lparr>index = 2048, size_mb = 0\<rparr>],
      strategy = BEST_FIT\<rparr> []"
proof -
  let ?A = "\<lparr>index = 0, size_mb = 100 :: 32 word\<rparr>"
  let ?Z = "\<lparr>index = 100, size_mb = 0 :: 32 word\<rparr>"
  let ?G = "\<lparr>index = 0, size_mb = 2048 :: 32 word\<rparr>"
  let ?R = "\<lparr>index = 2048, size_mb = 0 :: 32 word\<rparr>"
  have r0: "reachable ae \<lparr>free_list = [?G], strategy = BEST_FIT\<rparr> []"
    using reachable.init [of ae]
    by (simp add: allocator_initialise_def list_insert_head_def BUFFER_SIZE_def)
  have r1: "reachable ae \<lparr>free_list = [\<lparr>index = 100, size_mb = 1948\<rparr>], strategy = BEST_FIT\<rparr> [?A]"
    using reachable.allocate [OF r0, of 100 ?A]
    by (simp add: allocator_find_best_fit_def list_insert_tail_def)
  have r2: "reachable ae \<lparr>free_list = [\<lparr>index = 100, size_mb = 1948\<rparr>], strategy = BEST_FIT\<rparr>
              [?A, ?Z]"
    using reachable.allocate [OF r1, of 0 ?Z]
    by (simp add: allocator_find_best_fit_def list_insert_tail_def)
  have "release_block ae [\<lparr>index = 100, size_mb = 1948\<rparr>] ?A = [?G]"
    by (cases ae) (simp_all add: release_block_def mem_block_cmp_def)
  then have r3: "reachable ae \<lparr>free_list = [?G], strategy = BEST_FIT\<rparr> [?Z]"
    using reachable.release [OF r2, of 0] by (simp add: list_pop_node_def)
  have r4: "reachable ae \<lparr>free_list = [?R], strategy = BEST_FIT\<rparr> [?Z, ?G]"
    using reachable.allocate [OF r3, of 2048 ?G]
    by (simp add: allocator_find_best_fit_def list_insert_tail_def)
  have lt: "(100 :: 32 word) < 2048" by (simp add: word_less_nat_alt)
  have "release_block ae [?R] ?Z = [?Z, ?R]"
    using lt by (cases ae) (simp_all add: release_block_def mem_block_cmp_def not_less [symmetric])
  then have r5: "reachable ae \<lparr>free_list = [?Z, ?R], strategy = BEST_FIT\<rparr> [?G]"
    using reachable.release [OF r4, of 0] by (simp add: list_pop_node_def)
  have rel: "release_block ae [?Z, ?R] ?G = [?G, ?Z, ?R]"
    by (cases ae) (simp_all add: release_block_def mem_block_cmp_def)
  then have r6: "reachable ae \<lparr>free_list = [?G, ?Z, ?R], strategy = BEST_FIT\<rparr> []"
    using reachable.release [OF r5, of 0] by (simp add: list_pop_node_def)
  show ?thesis using r3 r5 rel r6 by simp
qed

text \<open>
  The allocation of the whole pool is an exact fit and leaves the remainder at 2048. For
  both readings of \<open>list_insert_sorted\<close>, the release of the block it handed out leaves
  that remainder in the free list, where it stays when no block is held any more.
\<close>

theorem remainder_not_absorbed_counterexample:
  "allocator_find_best_fit \<lparr>free_list = [\<lparr>index = 0, size_mb = 2048\<rparr>], strategy = BEST_FIT\<rparr> 2048 =
     Inr (Some \<lparr>index = 0, size_mb = 2048\<rparr>,
          \<lparr>free_list = [\<lparr>index = 2048, size_mb = 0\<rparr>], strategy = BEST_FIT\<rparr>) \<and>
   reachable True \<lparr>free_list = [\<lparr>index = 0, size_mb = 2048\<rparr>], strategy = BEST_FIT\<rparr>
     [\<lparr>index = 100, size_mb = 0\<rparr>] \<and>
   reachable True
     \<lparr>free_list = [\<lparr>index = 100, size_mb = 0\<rparr>, \<lparr>index = 2048, size_mb = 0\<rparr>],
      strategy = BEST_FIT\<rparr>
     [\<lparr>index = 0, size_mb = 2048\<rparr>] \<and>
   release_block True [\<lparr>index = 100, size_mb = 0\<rparr>, \<lparr>index = 2048, size_mb = 0\<rparr>]
     \<lparr>index = 0, size_mb = 2048\<rparr> =
     [\<lparr>index = 0, size_mb = 2048\<rparr>, \<lparr>index = 100, size_mb = 0\<rparr>,
      \<lparr>index = 2048, size_mb = 0\<rparr>] \<and>
   reachable True
     \<lparr>free_list = [\<lparr>index = 0, size_mb = 2048\<rparr>, \<lparr>index = 100, size_mb = 0\<rparr>,
                   \<lparr>index = 2048, size_mb = 0\<rparr>],
      strategy = BEST_FIT\<rparr> [] \<and>
   reachable False
     \<lparr>free_list = [\<lparr>index = 100, size_mb = 0\<rparr>, \<lparr>index = 2048, size_mb = 0\<rparr>],
      strategy = BEST_FIT\<rparr>
     [\<lparr>index = 0, size_mb = 2048\<rparr>] \<and>
   release_block False [\<lparr>index = 100, size_mb = 0\<rparr>, \<lparr>index = 2048, size_mb = 0\<rparr>]
     \<lparr>index = 0, size_mb = 2048\<rparr> =
     [\<lparr>index = 0, size_mb = 2048\<rparr>, \<lparr>index = 100, size_mb = 0\<rparr>,
      \<lparr>index = 2048, size_mb = 0\<rparr>] \<and>
   reachable False
     \<lparr>free_list = [\<lparr>index = 0, size_mb = 2048\<rparr>, \<lparr>index = 100, size_mb = 0\<rparr>,
                   \<lparr>index = 2048, size_mb = 0\<rparr>],
      strategy = BEST_FIT\<rparr> []"
proof -
  have al: "allocator_find_best_fit
      \<lparr>free_list = [\<lparr>index = 0, size_mb = 2048\<rparr>], strategy = BEST_FIT\<rparr> 2048 =
     Inr (Some \<lparr>index = 0, size_mb = 2048\<rparr>,
          \<lparr>free_list = [\<lparr>index = 2048, size_mb = 0\<rparr>], strategy = BEST_FIT\<rparr>)"
    by (simp add: allocator_find_best_fit_def Let_def)
  show ?thesis
    using al remainder_left_steps [of True] remainder_left_steps [of False] by simp
qed

section \<open>Shortest job first\<close>

lemma of_char_eq_0_iff: "(of_char c :: nat) = 0 \<longleftrightarrow> c = CHR 0x00"
proof -
  have "(of_char c :: nat) = of_char (CHR 0x00) \<longleftrightarrow> c = CHR 0x00"
    by (rule of_char_eq_iff)
  then show ?thesis by simp
qed

lemma strcmp_c_bytes:
  "(strcmp a b < 0 \<longleftrightarrow> c_bytes a < c_bytes b) \<and>
   (strcmp a b = 0 \<longleftrightarrow> c_bytes a = c_bytes b) \<and>
   (strcmp a b > 0 \<longleftrightarrow> c_bytes b < c_bytes a)"
proof (induction a b rule: strcmp.induct)
  case 1
  show ?case by (simp add: c_bytes_def)
next
  case (2 d ds)
  show ?case using of_char_eq_0_iff [of d] by (auto simp: c_bytes_def)
next
  case (3 c cs)
  show ?case using of_char_eq_0_iff [of c] by (auto simp: c_bytes_def)
next
  case (4 c cs d ds)
  show ?case
  proof (cases "c = d")
    case True
    with 4 show ?thesis by (auto simp: c_bytes_def)
  next
    case False
    then have ne: "(of_char c :: nat) \<noteq> of_char d" by simp
    have z: "c = CHR 0x00 \<longleftrightarrow> (of_char c :: nat) = 0" "d = CHR 0x00 \<longleftrightarrow> (of_char d :: nat) = 0"
      by (simp_all add: of_char_eq_0_iff)
    show ?thesis using False ne z by (auto simp: c_bytes_def)
  qed
qed

lemma strcmp_pos: "strcmp a b > 0 \<longleftrightarrow> c_bytes b < c_bytes a"
  using strcmp_c_bytes by blast

lemma strcmp_le: "strcmp a b \<le> 0 \<longleftrightarrow> c_bytes a \<le> c_bytes b"
  using strcmp_c_bytes [of a b] by (auto simp: not_less [symmetric])

lemma strcmp_zero: "strcmp a b = 0 \<longleftrightarrow> c_bytes a = c_bytes b"
  using strcmp_c_bytes by blast


lemma sjf_scan_Cons:
  assumes "min_time = service_time (pProgram pc)"
  shows "sjf_scan (p # ps) i (Some (c, pc)) min_time =
           (if sjf_key p < sjf_key pc
            then sjf_scan ps (Suc i) (Some (i, p)) (service_time (pProgram p))
            else sjf_scan ps (Suc i) (Some (c, pc)) min_time)"
  using assms by (auto simp: sjf_key_def Let_def strcmp_pos)

lemma first_least_snoc_keep:
  assumes "first_least pre c" and "\<not> sjf_key p < sjf_key (pre ! c)"
  shows "first_least (pre @ [p]) c"
proof -
  have c: "c < length pre" using assms(1) by (simp add: first_least_def)
  have "sjf_key (pre ! c) \<le> sjf_key ((pre @ [p]) ! j)" if "j < length (pre @ [p])" for j
  proof (cases "j < length pre")
    case True
    then show ?thesis using assms(1) by (simp add: first_least_def nth_append)
  next
    case False
    with that have "j = length pre" by simp
    then show ?thesis using assms(2) by (simp add: not_less)
  qed
  then show ?thesis using assms(1) c by (simp add: first_least_def nth_append)
qed

lemma first_least_snoc_take:
  assumes "first_least pre c" and "sjf_key p < sjf_key (pre ! c)"
  shows "first_least (pre @ [p]) (length pre)"
proof -
  have lt: "sjf_key p < sjf_key (pre ! j)" if "j < length pre" for j
  proof -
    have "sjf_key (pre ! c) \<le> sjf_key (pre ! j)"
      using assms(1) that by (simp add: first_least_def)
    with assms(2) show ?thesis by (rule less_le_trans)
  qed
  have "sjf_key p \<le> sjf_key ((pre @ [p]) ! j)" if "j < length (pre @ [p])" for j
  proof (cases "j < length pre")
    case True
    then show ?thesis using lt [of j] by (simp add: nth_append)
  next
    case False
    with that have "j = length pre" by simp
    then show ?thesis by simp
  qed
  then show ?thesis using lt by (simp add: first_least_def nth_append)
qed

lemma sjf_scan_inv:
  assumes "i = length pre" and "first_least pre c" and "pc = pre ! c"
    and "min_time = service_time (pProgram pc)"
  shows "\<exists>k. sjf_scan ps i (Some (c, pc)) min_time = Some (k, (pre @ ps) ! k) \<and>
             first_least (pre @ ps) k"
  using assms
proof (induction ps arbitrary: pre i c pc min_time)
  case Nil
  then show ?case by simp
next
  case (Cons p ps)
  have len: "Suc i = length (pre @ [p])" using Cons.prems(1) by simp
  have app: "(pre @ [p]) @ ps = pre @ p # ps" by simp
  have c: "c < length pre" using Cons.prems(2) by (simp add: first_least_def)
  show ?case
  proof (cases "sjf_key p < sjf_key pc")
    case True
    have fl: "first_least (pre @ [p]) i"
      using first_least_snoc_take [OF Cons.prems(2)] True Cons.prems(1,3) by simp
    have "p = (pre @ [p]) ! i" using Cons.prems(1) by simp
    from Cons.IH [OF len fl this refl] show ?thesis
      unfolding app sjf_scan_Cons [OF Cons.prems(4)] using True by (simp only: if_True)
  next
    case False
    have fl: "first_least (pre @ [p]) c"
      using first_least_snoc_keep [OF Cons.prems(2)] False Cons.prems(3) by simp
    have "pc = (pre @ [p]) ! c" using Cons.prems(3) c by (simp add: nth_append)
    from Cons.IH [OF len fl this Cons.prems(4)] show ?thesis
      unfolding app sjf_scan_Cons [OF Cons.prems(4)] using False by (simp only: if_False)
  qed
qed

lemma shortest_job_first_first_least:
  assumes "pList \<noteq> []"
  shows "\<exists>k. shortest_job_first pList = Some k \<and> first_least pList k"
proof -
  from assms obtain p ps where l: "pList = p # ps" by (cases pList) auto
  have "first_least [p] 0" by (simp add: first_least_def)
  from sjf_scan_inv [OF _ this, of 1 p "service_time (pProgram p)" ps]
  obtain k where "sjf_scan ps 1 (Some (0, p)) (service_time (pProgram p)) = Some (k, (p # ps) ! k)"
    and "first_least (p # ps) k" by auto
  then show ?thesis by (auto simp: shortest_job_first_def l Let_def)
qed

lemma shortest_job_first_Nil: "shortest_job_first [] = None"
  by (simp add: shortest_job_first_def)

lemma process_log_RUNNING:
  "state p = RUNNING \<Longrightarrow> \<exists>out. process_log s p = Inr out"
  by (simp add: process_log_def)

lemma process_continue_Inr:
  "process_continue w s p = Inr s' \<Longrightarrow>
   list_ready s' = list_ready s \<and> pRunningProcess s' = pRunningProcess s \<and>
   list_active s' = list_active s \<and> list_input s' = list_input s \<and>
   allocator s' = allocator s \<and> time s' = time s \<and> type_pm s' = type_pm s \<and>
   pPrograms s' = pPrograms s \<and> index_cp s' = index_cp s \<and>
   pending_count s' = pending_count s \<and>
   trace s' = trace s @ [Write_time (child_pid (list_active s ! p)) (time s),
                         Kill (child_pid (list_active s ! p)) SIGCONT]"
  by (auto simp: process_continue_def Let_def split: if_splits)

lemma process_run_Inr:
  assumes "process_run w s p = Inr s'"
  shows "list_ready s' = list_ready s \<and> pRunningProcess s' = pRunningProcess s \<and>
         list_input s' = list_input s \<and> allocator s' = allocator s \<and> time s' = time s \<and>
         type_pm s' = type_pm s \<and> pPrograms s' = pPrograms s \<and> index_cp s' = index_cp s \<and>
         pending_count s' = pending_count s \<and>
         length (list_active s') = length (list_active s)"
proof -
  let ?s1 = "s\<lparr>list_active := (list_active s)[p := (list_active s ! p)\<lparr>state := RUNNING\<rparr>]\<rparr>"
  from assms obtain out where out: "process_log ?s1 (list_active ?s1 ! p) = Inr out"
    by (auto simp: process_run_def Let_def split: sum.splits)
  let ?s2 = "?s1\<lparr>trace := trace ?s1 @ out\<rparr>"
  show ?thesis
  proof (cases "child_pid (list_active ?s2 ! p) \<noteq> PID_NULL_HANDLE")
    case True
    with assms out have "process_continue w ?s2 p = Inr s'"
      by (simp add: process_run_def Let_def)
    from process_continue_Inr [OF this] show ?thesis by simp
  next
    case False
    with assms out show ?thesis
      by (auto simp: process_run_def Let_def split: if_splits)
  qed
qed

text \<open>
  C4. For every ready queue that is not empty, \<open>shortest_job_first\<close> returns a node of
  the queue whose process has the least service time; among the processes of that
  service time it has the earliest arrival time; among those equal on both, its name is
  not after any other in the order of \<open>strcmp\<close>; and no earlier node of the queue is equal
  to it on all three. Under the shortest-job-first policy \<open>switch_process\<close> makes that
  process the running one and removes its node from the ready queue.
\<close>

theorem shortest_job_first_correct:
  "(pList \<noteq> [] \<longrightarrow>
      (\<exists>k < length pList. shortest_job_first pList = Some k \<and>
         (\<forall>p \<in> set pList. service_time (pProgram (pList ! k)) \<le> service_time (pProgram p)) \<and>
         (\<forall>p \<in> set pList. service_time (pProgram p) = service_time (pProgram (pList ! k)) \<longrightarrow>
            time_arrived (pProgram (pList ! k)) \<le> time_arrived (pProgram p)) \<and>
         (\<forall>p \<in> set pList. service_time (pProgram p) = service_time (pProgram (pList ! k)) \<and>
            time_arrived (pProgram p) = time_arrived (pProgram (pList ! k)) \<longrightarrow>
            strcmp (name (pProgram (pList ! k))) (name (pProgram p)) \<le> 0) \<and>
         (\<forall>j < k. \<not> (service_time (pProgram (pList ! j)) = service_time (pProgram (pList ! k)) \<and>
            time_arrived (pProgram (pList ! j)) = time_arrived (pProgram (pList ! k)) \<and>
            strcmp (name (pProgram (pList ! j))) (name (pProgram (pList ! k))) = 0)))) \<and>
   (type_pm s = SJF \<and> list_ready s \<noteq> [] \<and> switch_process w s = Inr s' \<longrightarrow>
      (\<exists>k < length (list_ready s).
         shortest_job_first (map (\<lambda>p. list_active s ! p) (list_ready s)) = Some k \<and>
         pRunningProcess s' = Some (list_ready s ! k) \<and>
         list_ready s' = take k (list_ready s) @ drop (Suc k) (list_ready s)))"
proof (intro conjI impI)
  assume ne: "pList \<noteq> []"
  from shortest_job_first_first_least [OF ne] obtain k where
    k: "shortest_job_first pList = Some k" and fl: "first_least pList k" by blast
  have klen: "k < length pList" using fl by (simp add: first_least_def)
  have le: "sjf_key (pList ! k) \<le> sjf_key p" if "p \<in> set pList" for p
    using fl that by (auto simp: first_least_def in_set_conv_nth)
  have lt: "sjf_key (pList ! k) < sjf_key (pList ! j)" if "j < k" for j
    using fl that by (simp add: first_least_def)
  have a: "\<forall>p \<in> set pList. service_time (pProgram (pList ! k)) \<le> service_time (pProgram p)"
  proof
    fix p assume "p \<in> set pList"
    from le [OF this] show "service_time (pProgram (pList ! k)) \<le> service_time (pProgram p)"
      by (auto simp: sjf_key_def)
  qed
  have b: "\<forall>p \<in> set pList. service_time (pProgram p) = service_time (pProgram (pList ! k)) \<longrightarrow>
            time_arrived (pProgram (pList ! k)) \<le> time_arrived (pProgram p)"
  proof (intro ballI impI)
    fix p assume "p \<in> set pList"
      and "service_time (pProgram p) = service_time (pProgram (pList ! k))"
    with le [of p] show "time_arrived (pProgram (pList ! k)) \<le> time_arrived (pProgram p)"
      by (auto simp: sjf_key_def)
  qed
  have c: "\<forall>p \<in> set pList. service_time (pProgram p) = service_time (pProgram (pList ! k)) \<and>
            time_arrived (pProgram p) = time_arrived (pProgram (pList ! k)) \<longrightarrow>
            strcmp (name (pProgram (pList ! k))) (name (pProgram p)) \<le> 0"
  proof (intro ballI impI)
    fix p assume "p \<in> set pList"
      and "service_time (pProgram p) = service_time (pProgram (pList ! k)) \<and>
            time_arrived (pProgram p) = time_arrived (pProgram (pList ! k))"
    with le [of p] show "strcmp (name (pProgram (pList ! k))) (name (pProgram p)) \<le> 0"
      by (auto simp: sjf_key_def strcmp_le)
  qed
  have d: "\<forall>j < k. \<not> (service_time (pProgram (pList ! j)) = service_time (pProgram (pList ! k)) \<and>
            time_arrived (pProgram (pList ! j)) = time_arrived (pProgram (pList ! k)) \<and>
            strcmp (name (pProgram (pList ! j))) (name (pProgram (pList ! k))) = 0)"
  proof (intro allI impI)
    fix j assume "j < k"
    from lt [OF this] show "\<not> (service_time (pProgram (pList ! j)) = service_time (pProgram (pList ! k)) \<and>
            time_arrived (pProgram (pList ! j)) = time_arrived (pProgram (pList ! k)) \<and>
            strcmp (name (pProgram (pList ! j))) (name (pProgram (pList ! k))) = 0)"
      by (auto simp: sjf_key_def strcmp_zero)
  qed
  show "\<exists>k < length pList. shortest_job_first pList = Some k \<and>
         (\<forall>p \<in> set pList. service_time (pProgram (pList ! k)) \<le> service_time (pProgram p)) \<and>
         (\<forall>p \<in> set pList. service_time (pProgram p) = service_time (pProgram (pList ! k)) \<longrightarrow>
            time_arrived (pProgram (pList ! k)) \<le> time_arrived (pProgram p)) \<and>
         (\<forall>p \<in> set pList. service_time (pProgram p) = service_time (pProgram (pList ! k)) \<and>
            time_arrived (pProgram p) = time_arrived (pProgram (pList ! k)) \<longrightarrow>
            strcmp (name (pProgram (pList ! k))) (name (pProgram p)) \<le> 0) \<and>
         (\<forall>j < k. \<not> (service_time (pProgram (pList ! j)) = service_time (pProgram (pList ! k)) \<and>
            time_arrived (pProgram (pList ! j)) = time_arrived (pProgram (pList ! k)) \<and>
            strcmp (name (pProgram (pList ! j))) (name (pProgram (pList ! k))) = 0))"
    using klen k a b c d by blast
next
  assume h: "type_pm s = SJF \<and> list_ready s \<noteq> [] \<and> switch_process w s = Inr s'"
  let ?ps = "map (\<lambda>p. list_active s ! p) (list_ready s)"
  have "?ps \<noteq> []" using h by simp
  from shortest_job_first_first_least [OF this] obtain k where
    k: "shortest_job_first ?ps = Some k" and fl: "first_least ?ps k" by blast
  have klen: "k < length (list_ready s)" using fl by (simp add: first_least_def)
  let ?r = "list_ready s ! k"
  from h k obtain s1 where run: "process_run w (s\<lparr>pRunningProcess := Some ?r\<rparr>) ?r = Inr s1"
    and s': "s' = s1\<lparr>list_ready := list_pop_node (list_ready s1) k\<rparr>"
    by (auto simp: switch_process_def Let_def split: sum.splits)
  from process_run_Inr [OF run] s'
  have "pRunningProcess s' = Some ?r \<and>
        list_ready s' = take k (list_ready s) @ drop (Suc k) (list_ready s)"
    by (simp add: list_pop_node_def)
  with klen k show "\<exists>k < length (list_ready s).
         shortest_job_first (map (\<lambda>p. list_active s ! p) (list_ready s)) = Some k \<and>
         pRunningProcess s' = Some (list_ready s ! k) \<and>
         list_ready s' = take k (list_ready s) @ drop (Suc k) (list_ready s)"
    by blast
qed

theorem shortest_job_first_correct_witness:
  "[\<lparr>pProgram = \<lparr>name = ''B'', time_arrived = 0, service_time = 5, memory_required = 0\<rparr>,
      run_time = 0, state = READY, pBlock = None, child_pid = PID_NULL_HANDLE, sha_buf = []\<rparr>,
    \<lparr>pProgram = \<lparr>name = ''A'', time_arrived = 0, service_time = 5, memory_required = 0\<rparr>,
      run_time = 0, state = READY, pBlock = None, child_pid = PID_NULL_HANDLE, sha_buf = []\<rparr>] \<noteq> [] \<and>
   shortest_job_first
     [\<lparr>pProgram = \<lparr>name = ''B'', time_arrived = 0, service_time = 5, memory_required = 0\<rparr>,
        run_time = 0, state = READY, pBlock = None, child_pid = PID_NULL_HANDLE, sha_buf = []\<rparr>,
      \<lparr>pProgram = \<lparr>name = ''A'', time_arrived = 0, service_time = 5, memory_required = 0\<rparr>,
        run_time = 0, state = READY, pBlock = None, child_pid = PID_NULL_HANDLE, sha_buf = []\<rparr>]
     = Some 1 \<and>
   (\<exists>s'. switch_process \<lparr>fork_pid = \<lambda>n. 7, verify_byte = \<lambda>n t. ucast t, sha_hash = \<lambda>n. []\<rparr>
           ((process_manager_initialise SJF INFINITE)
              \<lparr>list_active :=
                 [\<lparr>pProgram = \<lparr>name = ''B'', time_arrived = 0, service_time = 5, memory_required = 0\<rparr>,
                    run_time = 0, state = READY, pBlock = None, child_pid = PID_NULL_HANDLE,
                    sha_buf = []\<rparr>,
                  \<lparr>pProgram = \<lparr>name = ''A'', time_arrived = 0, service_time = 5, memory_required = 0\<rparr>,
                    run_time = 0, state = READY, pBlock = None, child_pid = PID_NULL_HANDLE,
                    sha_buf = []\<rparr>],
               list_ready := [0, 1]\<rparr>) = Inr s' \<and>
         pRunningProcess s' = Some 1 \<and> list_ready s' = [0])"
proof -
  let ?B = "\<lparr>pProgram = \<lparr>name = ''B'', time_arrived = 0, service_time = 5, memory_required = 0\<rparr>,
      run_time = 0, state = READY, pBlock = None, child_pid = PID_NULL_HANDLE, sha_buf = []\<rparr>"
  let ?A = "\<lparr>pProgram = \<lparr>name = ''A'', time_arrived = 0, service_time = 5, memory_required = 0\<rparr>,
      run_time = 0, state = READY, pBlock = None, child_pid = PID_NULL_HANDLE, sha_buf = []\<rparr>"
  let ?w = "\<lparr>fork_pid = \<lambda>n. 7, verify_byte = \<lambda>n t. ucast t, sha_hash = \<lambda>n. []\<rparr>"
  let ?s = "(process_manager_initialise SJF INFINITE)\<lparr>list_active := [?B, ?A], list_ready := [0, 1]\<rparr>"
  have ne: "[?B, ?A] \<noteq> []" by simp
  note t = shortest_job_first_correct [of "[?B, ?A]" ?s ?w]
  from t [THEN conjunct1, THEN mp, OF ne] obtain k where
    k: "k < length [?B, ?A]" "shortest_job_first [?B, ?A] = Some k"
    and c: "\<forall>p \<in> set [?B, ?A]. service_time (pProgram p) = service_time (pProgram ([?B, ?A] ! k)) \<and>
            time_arrived (pProgram p) = time_arrived (pProgram ([?B, ?A] ! k)) \<longrightarrow>
            strcmp (name (pProgram ([?B, ?A] ! k))) (name (pProgram p)) \<le> 0"
    by blast
  have "k \<noteq> 0"
  proof
    assume "k = 0"
    with c [rule_format, of ?A] show False by simp
  qed
  with k(1) have "k = 1" by simp
  with k(2) have sjf: "shortest_job_first [?B, ?A] = Some 1" by simp
  have ty: "type_pm ?s = SJF" "list_ready ?s \<noteq> []"
    by (simp_all add: process_manager_initialise_def)
  have m: "map (\<lambda>p. list_active ?s ! p) (list_ready ?s) = [?B, ?A]" by simp
  have "\<exists>s'. switch_process ?w ?s = Inr s'"
    unfolding switch_process_def ty(1) m sjf
    by (simp add: process_run_def process_log_def Let_def PID_NULL_HANDLE_def
        process_manager_initialise_def)
  then obtain s' where sw: "switch_process ?w ?s = Inr s'" ..
  from t [of s', THEN conjunct2, THEN mp] ty sw obtain j where
    "shortest_job_first (map (\<lambda>p. list_active ?s ! p) (list_ready ?s)) = Some j"
    "pRunningProcess s' = Some (list_ready ?s ! j)"
    "list_ready s' = take j (list_ready ?s) @ drop (Suc j) (list_ready ?s)"
    by blast
  with sjf have "pRunningProcess s' = Some 1 \<and> list_ready s' = [0]"
    unfolding m by simp
  with sw ne sjf show ?thesis by blast
qed

section \<open>Round robin and preemption\<close>

lemma switch_process_RR:
  assumes h: "type_pm s = RR \<and> list_ready s \<noteq> [] \<and> switch_process w s = Inr s1"
  shows "pRunningProcess s1 = Some (hd (list_ready s)) \<and> list_ready s1 = tl (list_ready s)"
proof -
  let ?r = "list_ready s ! 0"
  from h obtain s2 where run: "process_run w (s\<lparr>pRunningProcess := Some ?r\<rparr>) ?r = Inr s2"
    and s1: "s1 = s2\<lparr>list_ready := list_pop_node (list_ready s2) 0\<rparr>"
    by (auto simp: switch_process_def round_robin_def Let_def split: sum.splits)
  from process_run_Inr [OF run] s1 h
  show ?thesis
    by (simp add: list_pop_node_def hd_conv_nth drop_Suc)
qed

lemma keep_process_running_preempt:
  assumes h: "type_pm s = RR \<and> pRunningProcess s = Some r \<and> r < length (list_active s) \<and>
    list_ready s \<noteq> []"
  shows "\<exists>s'. keep_process_running w s = Inr (False, s') \<and>
            pRunningProcess s' = None \<and>
            list_ready s' = list_ready s @ [r] \<and>
            list_active s' = (list_active s)[r := (list_active s ! r)\<lparr>state := READY\<rparr>] \<and>
            state (list_active s' ! r) = READY \<and>
            trace s' = trace s @ [Write_time (child_pid (list_active s ! r)) (time s),
                                  Kill (child_pid (list_active s ! r)) SIGTSTP] \<and>
            (\<forall>s''. switch_process w s' = Inr s'' \<longrightarrow>
               pRunningProcess s'' = Some (hd (list_ready s)) \<and>
               list_ready s'' = tl (list_ready s) @ [r])"
proof -
  let ?s' = "(process_submit_ready (process_suspend s r) r)\<lparr>pRunningProcess := None\<rparr>"
  have k: "keep_process_running w s = Inr (False, ?s')"
    using h by (simp add: keep_process_running_def)
  have f: "pRunningProcess ?s' = None" "list_ready ?s' = list_ready s @ [r]"
    "list_active ?s' = (list_active s)[r := (list_active s ! r)\<lparr>state := READY\<rparr>]"
    "trace ?s' = trace s @ [Write_time (child_pid (list_active s ! r)) (time s),
                                  Kill (child_pid (list_active s ! r)) SIGTSTP]"
    "type_pm ?s' = RR"
    using h by (simp_all add: process_submit_ready_def process_suspend_def Let_def
        list_insert_tail_def)
  have st: "state (list_active ?s' ! r) = READY" using h f(3) by simp
  have sw: "\<forall>s''. switch_process w ?s' = Inr s'' \<longrightarrow>
               pRunningProcess s'' = Some (hd (list_ready s)) \<and>
               list_ready s'' = tl (list_ready s) @ [r]"
  proof (intro allI impI)
    fix s'' assume a: "switch_process w ?s' = Inr s''"
    let ?q = "list_ready ?s' ! 0"
    have ne: "list_ready ?s' \<noteq> []" using f(2) by simp
    from a f(5) ne obtain s2 where
      run: "process_run w (?s'\<lparr>pRunningProcess := Some ?q\<rparr>) ?q = Inr s2"
      and s'': "s'' = s2\<lparr>list_ready := list_pop_node (list_ready s2) 0\<rparr>"
      by (auto simp: switch_process_def round_robin_def Let_def split: sum.splits)
    from process_run_Inr [OF run] s'' f(2) h
    show "pRunningProcess s'' = Some (hd (list_ready s)) \<and>
               list_ready s'' = tl (list_ready s) @ [r]"
      by (cases "list_ready s") (simp_all add: list_pop_node_def)
  qed
  from k f(1-4) st sw show ?thesis
    by blast
qed

lemma keep_process_running_continue:
  assumes h: "pRunningProcess s = Some r \<and> (type_pm s = SJF \<or> list_ready s = [])"
  shows "keep_process_running w s =
        (if verify_byte w (name (pProgram (list_active s ! r))) (time s) = ucast (time s)
         then Inr (True, s\<lparr>trace := trace s @
                      [Write_time (child_pid (list_active s ! r)) (time s),
                       Kill (child_pid (list_active s ! r)) SIGCONT]\<rparr>)
         else Inl ExitFailure)"
proof -
  from h show ?thesis
    by (cases "type_pm s") (auto simp: keep_process_running_def process_continue_def Let_def)
qed

text \<open>
  C5. Under round robin the node selected is the head of the ready queue, and
  \<open>switch_process\<close> runs its process and removes it. At a quantum boundary with a running
  process, \<open>keep_process_running\<close> under round robin with a ready queue that is not
  empty suspends the running process (the time and \<open>SIGTSTP\<close> are sent), sets it
  \<open>READY\<close>, appends it to the ready queue and leaves no process running, so that the
  process then selected is the old head of the queue; with an empty ready queue it
  continues the same process, and so it does under shortest job first whatever the queue
  holds: the process stays the running one and the queue is as it was (the run stops
  with a failure when the worker does not acknowledge the time).
\<close>

theorem round_robin_preemption:
  "round_robin pList = (if pList = [] then None else Some 0) \<and>
   (type_pm s = RR \<and> list_ready s \<noteq> [] \<and> switch_process w s = Inr s1 \<longrightarrow>
      pRunningProcess s1 = Some (hd (list_ready s)) \<and> list_ready s1 = tl (list_ready s)) \<and>
   (type_pm s = RR \<and> pRunningProcess s = Some r \<and> r < length (list_active s) \<and>
    list_ready s \<noteq> [] \<longrightarrow>
      (\<exists>s'. keep_process_running w s = Inr (False, s') \<and>
            pRunningProcess s' = None \<and>
            list_ready s' = list_ready s @ [r] \<and>
            list_active s' = (list_active s)[r := (list_active s ! r)\<lparr>state := READY\<rparr>] \<and>
            state (list_active s' ! r) = READY \<and>
            trace s' = trace s @ [Write_time (child_pid (list_active s ! r)) (time s),
                                  Kill (child_pid (list_active s ! r)) SIGTSTP] \<and>
            (\<forall>s''. switch_process w s' = Inr s'' \<longrightarrow>
               pRunningProcess s'' = Some (hd (list_ready s)) \<and>
               list_ready s'' = tl (list_ready s) @ [r]))) \<and>
   (pRunningProcess s = Some r \<and> (type_pm s = SJF \<or> list_ready s = []) \<longrightarrow>
      keep_process_running w s =
        (if verify_byte w (name (pProgram (list_active s ! r))) (time s) = ucast (time s)
         then Inr (True, s\<lparr>trace := trace s @
                      [Write_time (child_pid (list_active s ! r)) (time s),
                       Kill (child_pid (list_active s ! r)) SIGCONT]\<rparr>)
         else Inl ExitFailure))"
  apply (intro conjI)
     apply (simp add: round_robin_def)
    apply (rule impI, erule switch_process_RR)
   apply (rule impI, erule keep_process_running_preempt)
  apply (rule impI, erule keep_process_running_continue)
  done

theorem round_robin_preemption_witness:
  "type_pm ((process_manager_initialise RR INFINITE)
      \<lparr>list_active :=
         [\<lparr>pProgram = \<lparr>name = ''P1'', time_arrived = 0, service_time = 6, memory_required = 0\<rparr>,
            run_time = 3, state = RUNNING, pBlock = None, child_pid = 7, sha_buf = []\<rparr>,
          \<lparr>pProgram = \<lparr>name = ''P2'', time_arrived = 0, service_time = 6, memory_required = 0\<rparr>,
            run_time = 0, state = READY, pBlock = None, child_pid = PID_NULL_HANDLE, sha_buf = []\<rparr>],
       list_ready := [1], pRunningProcess := Some 0\<rparr>) = RR \<and>
   (\<exists>s'. keep_process_running \<lparr>fork_pid = \<lambda>n. 8, verify_byte = \<lambda>n t. ucast t, sha_hash = \<lambda>n. []\<rparr>
      ((process_manager_initialise RR INFINITE)
        \<lparr>list_active :=
         [\<lparr>pProgram = \<lparr>name = ''P1'', time_arrived = 0, service_time = 6, memory_required = 0\<rparr>,
            run_time = 3, state = RUNNING, pBlock = None, child_pid = 7, sha_buf = []\<rparr>,
          \<lparr>pProgram = \<lparr>name = ''P2'', time_arrived = 0, service_time = 6, memory_required = 0\<rparr>,
            run_time = 0, state = READY, pBlock = None, child_pid = PID_NULL_HANDLE, sha_buf = []\<rparr>],
         list_ready := [1], pRunningProcess := Some 0\<rparr>) = Inr (False, s') \<and>
      pRunningProcess s' = None \<and> list_ready s' = [1, 0] \<and> state (list_active s' ! 0) = READY) \<and>
   (\<exists>s'. keep_process_running \<lparr>fork_pid = \<lambda>n. 8, verify_byte = \<lambda>n t. ucast t, sha_hash = \<lambda>n. []\<rparr>
      ((process_manager_initialise SJF INFINITE)
        \<lparr>list_active :=
         [\<lparr>pProgram = \<lparr>name = ''P1'', time_arrived = 0, service_time = 6, memory_required = 0\<rparr>,
            run_time = 3, state = RUNNING, pBlock = None, child_pid = 7, sha_buf = []\<rparr>,
          \<lparr>pProgram = \<lparr>name = ''P2'', time_arrived = 0, service_time = 6, memory_required = 0\<rparr>,
            run_time = 0, state = READY, pBlock = None, child_pid = PID_NULL_HANDLE, sha_buf = []\<rparr>],
         list_ready := [1], pRunningProcess := Some 0\<rparr>) = Inr (True, s') \<and>
      pRunningProcess s' = Some 0 \<and> list_ready s' = [1])"
proof -
  let ?act = "[\<lparr>pProgram = \<lparr>name = ''P1'', time_arrived = 0, service_time = 6, memory_required = 0\<rparr>,
            run_time = 3, state = RUNNING, pBlock = None, child_pid = 7, sha_buf = []\<rparr>,
          \<lparr>pProgram = \<lparr>name = ''P2'', time_arrived = 0, service_time = 6, memory_required = 0\<rparr>,
            run_time = 0, state = READY, pBlock = None, child_pid = PID_NULL_HANDLE, sha_buf = []\<rparr>]"
  let ?w = "\<lparr>fork_pid = \<lambda>n. 8, verify_byte = \<lambda>n t. ucast t, sha_hash = \<lambda>n. []\<rparr>"
  let ?rr = "(process_manager_initialise RR INFINITE)
        \<lparr>list_active := ?act, list_ready := [1], pRunningProcess := Some 0\<rparr>"
  let ?sjf = "(process_manager_initialise SJF INFINITE)
        \<lparr>list_active := ?act, list_ready := [1], pRunningProcess := Some 0\<rparr>"
  have h1: "type_pm ?rr = RR \<and> pRunningProcess ?rr = Some 0 \<and> 0 < length (list_active ?rr) \<and>
            list_ready ?rr \<noteq> []"
    by (simp add: process_manager_initialise_def)
  from round_robin_preemption [of "[]" ?rr ?w _ 0, THEN conjunct2, THEN conjunct2, THEN conjunct1,
      THEN mp, OF h1]
  obtain s' where "keep_process_running ?w ?rr = Inr (False, s')" "pRunningProcess s' = None"
    "list_ready s' = list_ready ?rr @ [0]" "state (list_active s' ! 0) = READY"
    by blast
  then have a: "\<exists>s'. keep_process_running ?w ?rr = Inr (False, s') \<and>
      pRunningProcess s' = None \<and> list_ready s' = [1, 0] \<and> state (list_active s' ! 0) = READY"
    by simp
  have h2: "pRunningProcess ?sjf = Some 0 \<and> (type_pm ?sjf = SJF \<or> list_ready ?sjf = [])"
    by (simp add: process_manager_initialise_def)
  from round_robin_preemption [of "[]" ?sjf ?w _ 0, THEN conjunct2, THEN conjunct2, THEN conjunct2,
      THEN mp, OF h2]
  have b: "\<exists>s'. keep_process_running ?w ?sjf = Inr (True, s') \<and>
      pRunningProcess s' = Some 0 \<and> list_ready s' = [1]"
    by simp
  from h1 a b show ?thesis by blast
qed

section \<open>Admission\<close>

lemma check_pending_arrivals_eq:
  "check_pending_arrivals s =
     s\<lparr>list_input := list_input s @
          takeWhile (\<lambda>p. time_arrived p \<le> time s) (drop (index_cp s) (pPrograms s)),
       pending_count := pending_count s +
          of_nat (length (takeWhile (\<lambda>p. time_arrived p \<le> time s) (drop (index_cp s) (pPrograms s)))),
       index_cp := index_cp s +
          length (takeWhile (\<lambda>p. time_arrived p \<le> time s) (drop (index_cp s) (pPrograms s)))\<rparr>"
proof (induction s rule: check_pending_arrivals.induct)
  case (1 s)
  show ?case
  proof (cases "index_cp s < length (pPrograms s)")
    case False
    then show ?thesis by (subst check_pending_arrivals.simps) simp
  next
    case lt: True
    then have d: "drop (index_cp s) (pPrograms s) =
           pPrograms s ! index_cp s # drop (Suc (index_cp s)) (pPrograms s)"
      by (simp add: Cons_nth_drop_Suc)
    show ?thesis
    proof (cases "time_arrived (pPrograms s ! index_cp s) > time s")
      case True
      then have "check_pending_arrivals s = s"
        using lt by (subst check_pending_arrivals.simps) (simp add: Let_def)
      moreover have "takeWhile (\<lambda>p. time_arrived p \<le> time s) (drop (index_cp s) (pPrograms s)) = []"
        using True by (simp add: d not_le)
      ultimately show ?thesis by simp
    next
      case False
      let ?s' = "s\<lparr>list_input := list_insert_tail (list_input s) (pPrograms s ! index_cp s),
                  pending_count := pending_count s + 1,
                  index_cp := index_cp s + 1\<rparr>"
      have "check_pending_arrivals s = check_pending_arrivals ?s'"
        using lt False by (subst check_pending_arrivals.simps) (simp add: Let_def)
      also note "1.IH" [OF lt refl False]
      finally show ?thesis
        using False by (simp add: d not_less list_insert_tail_def add.assoc)
    qed
  qed
qed


lemma process_try_create_Some:
  assumes "process_try_create a prog = Inr (Some pr, a')"
  shows "state pr = READY" and "pProgram pr = prog" and "run_time pr = 0"
    and "child_pid pr = PID_NULL_HANDLE"
    and "pBlock pr = None \<longleftrightarrow> strategy a \<noteq> BEST_FIT"
  using assms
  by (auto simp: process_try_create_def Let_def split: if_splits sum.splits option.splits)

lemma ready_lines_Nil [simp]: "ready_lines t [] = []"
  by (simp add: ready_lines_def)

lemma ready_lines_Cons:
  "ready_lines t (p # ps) =
     (case pBlock p of
        None \<Rightarrow> []
      | Some b \<Rightarrow> [Printf (print_d t @ '',READY,process_name='' @ name (pProgram p) @
                            '',assigned_at='' @ print_d (index b))]) @ ready_lines t ps"
  by (simp add: ready_lines_def)

lemma check_pending_scan_spec:
  assumes "check_pending_scan k s = Inr s'" and "list_input s = pre @ post" and "k = length pre"
  shows "\<exists>rest created.
           admission_scan_spec (allocator s) post = Inr (rest, created, allocator s') \<and>
           list_input s' = pre @ rest \<and>
           list_active s' = list_active s @ created \<and>
           list_ready s' = list_ready s @
             [length (list_active s) ..< length (list_active s) + length created] \<and>
           trace s' = trace s @ ready_lines (time s) created \<and>
           time s' = time s \<and> pPrograms s' = pPrograms s \<and> index_cp s' = index_cp s \<and>
           pending_count s' = pending_count s \<and> pRunningProcess s' = pRunningProcess s \<and>
           type_pm s' = type_pm s"
  using assms
proof (induction post arbitrary: s pre k)
  case Nil
  then have "s' = s" by (subst (asm) check_pending_scan.simps) simp
  with Nil.prems(2) show ?case by simp
next
  case (Cons prog post)
  have k: "k < length (list_input s)" and nth: "list_input s ! k = prog"
    using Cons.prems(2,3) by simp_all
  show ?case
  proof (cases "process_try_create (allocator s) prog")
    case (Inl e)
    with Cons.prems(1) k nth show ?thesis
      by (subst (asm) check_pending_scan.simps) simp
  next
    case (Inr res)
    obtain r a' where res: "res = (r, a')" by (cases res)
    show ?thesis
    proof (cases r)
      case None
      let ?s1 = "s\<lparr>allocator := a'\<rparr>"
      have step: "check_pending_scan (Suc k) ?s1 = Inr s'"
        using Cons.prems(1) k nth Inr res None
        by (subst (asm) check_pending_scan.simps) simp
      have li: "list_input ?s1 = (pre @ [prog]) @ post" using Cons.prems(2) by simp
      have sk: "Suc k = length (pre @ [prog])" using Cons.prems(3) by simp
      from Cons.IH [OF step li sk] Inr res None show ?thesis by auto
    next
      case (Some pr)
      let ?p = "length (list_active s)"
      let ?s1 = "process_submit_ready
                   (s\<lparr>allocator := a', list_active := list_insert_tail (list_active s) pr\<rparr>) ?p"
      note tc = process_try_create_Some [OF Inr [unfolded res Some]]
      have act: "list_active ?s1 = list_active s @ [pr]"
        using tc(1) by (simp add: process_submit_ready_def list_insert_tail_def)
      then have pth: "list_active ?s1 ! ?p = pr" by simp
      have f1: "list_ready ?s1 = list_ready s @ [?p]" "allocator ?s1 = a'" "time ?s1 = time s"
        "trace ?s1 = trace s" "list_input ?s1 = list_input s" "pPrograms ?s1 = pPrograms s"
        "index_cp ?s1 = index_cp s" "pending_count ?s1 = pending_count s"
        "pRunningProcess ?s1 = pRunningProcess s" "type_pm ?s1 = type_pm s"
        by (simp_all add: process_submit_ready_def list_insert_tail_def)
      have out: "(if pBlock (list_active ?s1 ! ?p) \<noteq> None
                  then process_log ?s1 (list_active ?s1 ! ?p) else Inr []) =
                 Inr (ready_lines (time s) [pr])"
        unfolding pth using tc(1) f1(3)
        by (cases "pBlock pr") (simp_all add: process_log_def ready_lines_Cons)
      let ?s2 = "?s1\<lparr>trace := trace ?s1 @ ready_lines (time s) [pr],
                     list_input := list_pop_node (list_input s) k\<rparr>"
      have step: "check_pending_scan k ?s2 = Inr s'"
        using Cons.prems(1)
        by (subst (asm) check_pending_scan.simps)
           (simp only: k if_True nth Inr res Some sum.case prod.case option.case Let_def out)
      have li: "list_input ?s2 = pre @ post"
        using Cons.prems(2,3) by (simp add: list_pop_node_def)
      from Cons.IH [OF step li Cons.prems(3)] obtain rest created where
        sp: "admission_scan_spec (allocator ?s2) post = Inr (rest, created, allocator s')"
        and r: "list_input s' = pre @ rest"
          "list_active s' = list_active ?s2 @ created"
          "list_ready s' = list_ready ?s2 @
             [length (list_active ?s2) ..< length (list_active ?s2) + length created]"
          "trace s' = trace ?s2 @ ready_lines (time ?s2) created"
          "time s' = time ?s2" "pPrograms s' = pPrograms ?s2" "index_cp s' = index_cp ?s2"
          "pending_count s' = pending_count ?s2" "pRunningProcess s' = pRunningProcess ?s2"
          "type_pm s' = type_pm ?s2"
        by blast
      have sp': "admission_scan_spec (allocator s) (prog # post) =
                 Inr (rest, pr # created, allocator s')"
        using sp f1(2) Inr res Some by simp
      have upt: "[?p ..< ?p + length (pr # created)] = ?p # [Suc ?p ..< Suc ?p + length created]"
        by (simp add: upt_rec)
      have rl: "ready_lines (time s) (pr # created) =
                ready_lines (time s) [pr] @ ready_lines (time s) created"
        by (simp add: ready_lines_def)
      show ?thesis
        apply (rule exI [of _ rest], rule exI [of _ "pr # created"])
        using sp' r act f1 upt rl by simp
    qed
  qed
qed

lemma check_pending_Inr:
  assumes "check_pending s = Inr s'"
  shows "\<exists>created.
     index_cp s' = index_cp s +
       length (takeWhile (\<lambda>p. time_arrived p \<le> time s) (drop (index_cp s) (pPrograms s))) \<and>
     admission_scan_spec (allocator s)
       (list_input s @
        takeWhile (\<lambda>p. time_arrived p \<le> time s) (drop (index_cp s) (pPrograms s))) =
       Inr (list_input s', created, allocator s') \<and>
     list_active s' = list_active s @ created \<and>
     list_ready s' = list_ready s @
       [length (list_active s) ..< length (list_active s) + length created] \<and>
     trace s' = trace s @ ready_lines (time s) created \<and>
     time s' = time s \<and> pPrograms s' = pPrograms s \<and>
     pending_count s' = pending_count s +
       of_nat (length (takeWhile (\<lambda>p. time_arrived p \<le> time s) (drop (index_cp s) (pPrograms s)))) \<and>
     pRunningProcess s' = pRunningProcess s \<and> type_pm s' = type_pm s"
proof -
  let ?moved = "takeWhile (\<lambda>p. time_arrived p \<le> time s) (drop (index_cp s) (pPrograms s))"
  let ?s1 = "check_pending_arrivals s"
  have s1: "?s1 = s\<lparr>list_input := list_input s @ ?moved,
       pending_count := pending_count s + of_nat (length ?moved),
       index_cp := index_cp s + length ?moved\<rparr>"
    by (rule check_pending_arrivals_eq)
  have f: "list_input ?s1 = list_input s @ ?moved" "allocator ?s1 = allocator s"
    "list_active ?s1 = list_active s" "list_ready ?s1 = list_ready s" "trace ?s1 = trace s"
    "time ?s1 = time s" "pPrograms ?s1 = pPrograms s"
    "index_cp ?s1 = index_cp s + length ?moved"
    "pending_count ?s1 = pending_count s + of_nat (length ?moved)"
    "pRunningProcess ?s1 = pRunningProcess s" "type_pm ?s1 = type_pm s"
    by (simp_all add: s1)
  show ?thesis
  proof (cases "list_input ?s1 = []")
    case True
    with assms have "s' = ?s1" by (simp add: check_pending_def Let_def)
    with True f show ?thesis by simp
  next
    case False
    with assms have sc: "check_pending_scan 0 ?s1 = Inr s'"
      by (simp add: check_pending_def Let_def)
    have "list_input ?s1 = [] @ list_input ?s1" by simp
    from check_pending_scan_spec [OF sc this] f show ?thesis by auto
  qed
qed

text \<open>
  C6, as the code has it. \<open>check_pending\<close> moves programs of the raw input into the
  admission queue in input order, from the first program not moved yet up to, and not
  including, the first program whose arrival time is after the current time: a program
  that has arrived but stands behind one that has not is not moved (the input is taken to
  be ordered by arrival time). The admission queue is then scanned from head to tail as
  the specification says: each entry whose allocation succeeds leaves the queue and its
  process is appended to the registry and to the ready queue, each entry whose allocation
  fails stays, and the scan goes on to the next entry.
\<close>

theorem check_pending_admission:
  assumes "check_pending s = Inr s'"
  shows "\<exists>created.
     index_cp s' = index_cp s +
       length (takeWhile (\<lambda>p. time_arrived p \<le> time s) (drop (index_cp s) (pPrograms s))) \<and>
     admission_scan_spec (allocator s)
       (list_input s @
        takeWhile (\<lambda>p. time_arrived p \<le> time s) (drop (index_cp s) (pPrograms s))) =
       Inr (list_input s', created, allocator s') \<and>
     list_active s' = list_active s @ created \<and>
     list_ready s' = list_ready s @
       [length (list_active s) ..< length (list_active s) + length created]"
  using check_pending_Inr [OF assms] by blast

theorem check_pending_admission_witness:
  "\<exists>s'. check_pending
          (foldl program_add (process_manager_initialise SJF BEST_FIT)
             [\<lparr>name = ''big'', time_arrived = 0, service_time = 4, memory_required = 3000\<rparr>,
              \<lparr>name = ''small'', time_arrived = 0, service_time = 2, memory_required = 10\<rparr>,
              \<lparr>name = ''late'', time_arrived = 9, service_time = 2, memory_required = 10\<rparr>]) = Inr s' \<and>
        index_cp s' = 2 \<and>
        list_input s' =
          [\<lparr>name = ''big'', time_arrived = 0, service_time = 4, memory_required = 3000\<rparr>] \<and>
        list_active s' =
          [\<lparr>pProgram = \<lparr>name = ''small'', time_arrived = 0, service_time = 2, memory_required = 10\<rparr>,
            run_time = 0, state = READY, pBlock = Some \<lparr>index = 0, size_mb = 10\<rparr>,
            child_pid = PID_NULL_HANDLE, sha_buf = []\<rparr>] \<and>
        list_ready s' = [0]"
proof -
  let ?big = "\<lparr>name = ''big'', time_arrived = 0, service_time = 4, memory_required = 3000\<rparr>"
  let ?small = "\<lparr>name = ''small'', time_arrived = 0, service_time = 2, memory_required = 10\<rparr>"
  let ?late = "\<lparr>name = ''late'', time_arrived = 9, service_time = 2, memory_required = 10\<rparr>"
  let ?s = "foldl program_add (process_manager_initialise SJF BEST_FIT) [?big, ?small, ?late]"
  have "\<exists>s'. check_pending ?s = Inr s'"
    by (simp add: check_pending_def check_pending_arrivals_eq check_pending_scan.simps
        process_manager_initialise_def program_add_def allocator_initialise_def
        list_insert_head_def BUFFER_SIZE_def process_try_create_def allocator_find_best_fit_def
        process_submit_ready_def list_insert_tail_def list_pop_node_def process_log_def
        Let_def)
  then obtain s' where c: "check_pending ?s = Inr s'" ..
  from check_pending_admission [OF c] obtain created where
    r: "index_cp s' = index_cp ?s +
       length (takeWhile (\<lambda>p. time_arrived p \<le> time ?s) (drop (index_cp ?s) (pPrograms ?s)))"
     "admission_scan_spec (allocator ?s)
       (list_input ?s @
        takeWhile (\<lambda>p. time_arrived p \<le> time ?s) (drop (index_cp ?s) (pPrograms ?s))) =
       Inr (list_input s', created, allocator s')"
     "list_active s' = list_active ?s @ created"
     "list_ready s' = list_ready ?s @
       [length (list_active ?s) ..< length (list_active ?s) + length created]"
    by blast
  have st: "index_cp ?s = 0" "time ?s = 0" "pPrograms ?s = [?big, ?small, ?late]"
    "list_input ?s = []" "list_active ?s = []" "list_ready ?s = []"
    "allocator ?s = \<lparr>free_list = [\<lparr>index = 0, size_mb = 2048\<rparr>], strategy = BEST_FIT\<rparr>"
    by (simp_all add: process_manager_initialise_def program_add_def allocator_initialise_def
        list_insert_head_def BUFFER_SIZE_def)
  have sp: "admission_scan_spec \<lparr>free_list = [\<lparr>index = 0, size_mb = 2048\<rparr>], strategy = BEST_FIT\<rparr>
              [?big, ?small] =
            Inr ([?big],
                 [\<lparr>pProgram = ?small, run_time = 0, state = READY,
                   pBlock = Some \<lparr>index = 0, size_mb = 10\<rparr>,
                   child_pid = PID_NULL_HANDLE, sha_buf = []\<rparr>],
                 \<lparr>free_list = [\<lparr>index = 10, size_mb = 2038\<rparr>], strategy = BEST_FIT\<rparr>)"
    by (simp add: process_try_create_def allocator_find_best_fit_def Let_def)
  from r sp have "index_cp s' = 2 \<and> list_input s' = [?big] \<and>
        list_active s' = [\<lparr>pProgram = ?small, run_time = 0, state = READY,
                   pBlock = Some \<lparr>index = 0, size_mb = 10\<rparr>,
                   child_pid = PID_NULL_HANDLE, sha_buf = []\<rparr>] \<and>
        list_ready s' = [0]"
    unfolding st by simp
  with c show ?thesis by blast
qed

theorem check_pending_skips_arrived_counterexample:
  "time_arrived \<lparr>name = ''early'', time_arrived = 0, service_time = 1, memory_required = 0\<rparr>
     \<le> time (foldl program_add (process_manager_initialise SJF INFINITE)
             [\<lparr>name = ''late'', time_arrived = 5, service_time = 1, memory_required = 0\<rparr>,
              \<lparr>name = ''early'', time_arrived = 0, service_time = 1, memory_required = 0\<rparr>]) \<and>
   check_pending
     (foldl program_add (process_manager_initialise SJF INFINITE)
        [\<lparr>name = ''late'', time_arrived = 5, service_time = 1, memory_required = 0\<rparr>,
         \<lparr>name = ''early'', time_arrived = 0, service_time = 1, memory_required = 0\<rparr>]) =
   Inr (foldl program_add (process_manager_initialise SJF INFINITE)
        [\<lparr>name = ''late'', time_arrived = 5, service_time = 1, memory_required = 0\<rparr>,
         \<lparr>name = ''early'', time_arrived = 0, service_time = 1, memory_required = 0\<rparr>]) \<and>
   list_input
     (foldl program_add (process_manager_initialise SJF INFINITE)
        [\<lparr>name = ''late'', time_arrived = 5, service_time = 1, memory_required = 0\<rparr>,
         \<lparr>name = ''early'', time_arrived = 0, service_time = 1, memory_required = 0\<rparr>]) = [] \<and>
   list_active
     (foldl program_add (process_manager_initialise SJF INFINITE)
        [\<lparr>name = ''late'', time_arrived = 5, service_time = 1, memory_required = 0\<rparr>,
         \<lparr>name = ''early'', time_arrived = 0, service_time = 1, memory_required = 0\<rparr>]) = []"
  by (simp add: check_pending_def check_pending_arrivals_eq process_manager_initialise_def
      program_add_def Let_def)

section \<open>The clock and the log\<close>

lemma printed_append [simp]: "printed (xs @ ys) = printed xs @ printed ys"
  by (induction xs rule: printed.induct) simp_all

lemma update_None:
  "pRunningProcess s = None \<Longrightarrow> update w ae s d = Inr (s\<lparr>time := time s + d\<rparr>)"
  by (simp add: update_def Let_def)

lemma update_continue:
  assumes "pRunningProcess s = Some r" and "r < length (list_active s)"
    and "\<not> service_time (pProgram (list_active s ! r)) \<le> run_time (list_active s ! r) + d"
  shows "update w ae s d =
           Inr (s\<lparr>time := time s + d,
                  list_active := (list_active s)
                    [r := (list_active s ! r)\<lparr>run_time := run_time (list_active s ! r) + d\<rparr>]\<rparr>)"
  using assms by (simp add: update_def Let_def)

lemma update_finish:
  assumes run: "pRunningProcess s = Some r" and r: "r < length (list_active s)"
    and fin: "service_time (pProgram (list_active s ! r)) \<le> run_time (list_active s ! r) + d"
    and ok: "update w ae s d = Inr s'"
  shows "pRunningProcess s' = None"
    and "list_active s' = (list_active s)
           [r := (list_active s ! r)
              \<lparr>run_time := run_time (list_active s ! r) + d,
               sha_buf := take SHA_HASH_SIZE (sha_hash w (name (pProgram (list_active s ! r)))),
               state := FINISHED,
               pBlock := (if strategy (allocator s) = BEST_FIT then None
                          else pBlock (list_active s ! r))\<rparr>]"
    and "trace s' = trace s @
           [Write_time (child_pid (list_active s ! r)) (time s + d),
            Kill (child_pid (list_active s ! r)) SIGTERM,
            Close_pipes (child_pid (list_active s ! r)),
            Printf (print_d (time s + d) @ '',FINISHED,process_name='' @
                    name (pProgram (list_active s ! r)) @ '',proc_remaining='' @
                    print_d (pending_count s - 1)),
            Printf (print_d (time s + d) @ '',FINISHED-PROCESS,process_name='' @
                    name (pProgram (list_active s ! r)) @ '',sha='' @
                    take SHA_HASH_SIZE (sha_hash w (name (pProgram (list_active s ! r)))))]"
    and "time s' = time s + d" and "list_ready s' = list_ready s"
    and "list_input s' = list_input s" and "pPrograms s' = pPrograms s"
    and "index_cp s' = index_cp s" and "type_pm s' = type_pm s"
    and "pending_count s' = pending_count s - 1"
    and "strategy (allocator s') = strategy (allocator s)"
    and "strategy (allocator s) = BEST_FIT \<longrightarrow>
           (\<exists>b. pBlock (list_active s ! r) = Some b \<and>
                allocator s' = (allocator s)\<lparr>free_list := release_block ae (free_list (allocator s)) b\<rparr>)"
    and "strategy (allocator s) \<noteq> BEST_FIT \<longrightarrow> allocator s' = allocator s"
proof -
  let ?p = "list_active s ! r"
  show "pRunningProcess s' = None"
    using assms
    by (auto simp: update_def Let_def process_terminate_def allocater_free_memory_def
        process_log_def split: if_splits sum.splits option.splits)
  show "list_active s' = (list_active s)
           [r := ?p\<lparr>run_time := run_time ?p + d,
               sha_buf := take SHA_HASH_SIZE (sha_hash w (name (pProgram ?p))),
               state := FINISHED,
               pBlock := (if strategy (allocator s) = BEST_FIT then None else pBlock ?p)\<rparr>]"
    using assms
    by (auto simp: update_def Let_def process_terminate_def allocater_free_memory_def
        process_log_def split: if_splits sum.splits option.splits)
  show "trace s' = trace s @
           [Write_time (child_pid ?p) (time s + d), Kill (child_pid ?p) SIGTERM,
            Close_pipes (child_pid ?p),
            Printf (print_d (time s + d) @ '',FINISHED,process_name='' @
                    name (pProgram ?p) @ '',proc_remaining='' @ print_d (pending_count s - 1)),
            Printf (print_d (time s + d) @ '',FINISHED-PROCESS,process_name='' @
                    name (pProgram ?p) @ '',sha='' @
                    take SHA_HASH_SIZE (sha_hash w (name (pProgram ?p))))]"
    using assms
    by (auto simp: update_def Let_def process_terminate_def allocater_free_memory_def
        process_log_def split: if_splits sum.splits option.splits)
  show "time s' = time s + d" "list_ready s' = list_ready s" "list_input s' = list_input s"
    "pPrograms s' = pPrograms s" "index_cp s' = index_cp s" "type_pm s' = type_pm s"
    "pending_count s' = pending_count s - 1"
    "strategy (allocator s') = strategy (allocator s)"
    using assms
    by (auto simp: update_def Let_def process_terminate_def allocater_free_memory_def
        process_log_def split: if_splits sum.splits option.splits)
  show "strategy (allocator s) = BEST_FIT \<longrightarrow>
           (\<exists>b. pBlock ?p = Some b \<and>
                allocator s' = (allocator s)\<lparr>free_list := release_block ae (free_list (allocator s)) b\<rparr>)"
    using assms
    by (auto simp: update_def Let_def process_terminate_def allocater_free_memory_def
        process_log_def split: if_splits sum.splits option.splits)
  show "strategy (allocator s) \<noteq> BEST_FIT \<longrightarrow> allocator s' = allocator s"
    using assms
    by (auto simp: update_def Let_def process_terminate_def allocater_free_memory_def
        process_log_def split: if_splits sum.splits option.splits)
qed


lemma process_run_trace:
  assumes "p < length (list_active s)" and "process_run w s p = Inr s'"
  shows "printed (trace s') = printed (trace s) @
           [print_d (time s) @ '',RUNNING,process_name='' @ name (pProgram (list_active s ! p)) @
            '',remaining_time='' @
            print_d (service_time (pProgram (list_active s ! p)) - run_time (list_active s ! p))]"
    and "\<exists>pid. list_active s' =
           (list_active s)[p := (list_active s ! p)\<lparr>state := RUNNING, child_pid := pid\<rparr>]"
proof -
  show "printed (trace s') = printed (trace s) @
           [print_d (time s) @ '',RUNNING,process_name='' @ name (pProgram (list_active s ! p)) @
            '',remaining_time='' @
            print_d (service_time (pProgram (list_active s ! p)) - run_time (list_active s ! p))]"
    using assms
    by (auto simp: process_run_def process_log_def process_continue_def Let_def
        split: if_splits)
  have "list_active s' = (list_active s)
          [p := (list_active s ! p)\<lparr>state := RUNNING, child_pid := child_pid (list_active s ! p)\<rparr>] \<or>
        list_active s' = (list_active s)
          [p := (list_active s ! p)\<lparr>state := RUNNING,
                 child_pid := fork_pid w (name (pProgram (list_active s ! p)))\<rparr>]"
    using assms
    by (auto simp: process_run_def process_log_def process_continue_def Let_def
        split: if_splits)
  then show "\<exists>pid. list_active s' =
           (list_active s)[p := (list_active s ! p)\<lparr>state := RUNNING, child_pid := pid\<rparr>]"
    by blast
qed

lemma process_try_create_strategy:
  "process_try_create a prog = Inr (r, a') \<Longrightarrow> strategy a' = strategy a"
proof -
  assume c: "process_try_create a prog = Inr (r, a')"
  show ?thesis
  proof (cases "strategy a = BEST_FIT")
    case False
    with c show ?thesis by (simp add: process_try_create_def Let_def)
  next
    case True
    show ?thesis
    proof (cases r)
      case None
      with c True have "allocator_find_best_fit a (ucast (memory_required prog)) = Inr (None, a')"
        by (auto simp: process_try_create_def Let_def split: sum.splits option.splits)
      from allocator_find_best_fit_None [OF this] show ?thesis by simp
    next
      case (Some pr)
      with c True obtain b where
        "allocator_find_best_fit a (ucast (memory_required prog)) = Inr (Some b, a')"
        by (auto simp: process_try_create_def Let_def split: sum.splits option.splits)
      from allocator_find_best_fit_Some [OF this] show ?thesis by auto
    qed
  qed
qed

lemma admission_scan_spec_created:
  "admission_scan_spec a queue = Inr (rest, created, a') \<Longrightarrow>
   strategy a' = strategy a \<and>
   (\<forall>p \<in> set created. (pBlock p = None \<longleftrightarrow> strategy a \<noteq> BEST_FIT) \<and> state p = READY \<and>
      run_time p = 0 \<and> child_pid p = PID_NULL_HANDLE \<and> pProgram p \<in> set queue)"
proof (induction queue arbitrary: a rest created)
  case Nil
  then show ?case by simp
next
  case (Cons prog queue)
  from Cons.prems obtain r a1 where tc: "process_try_create a prog = Inr (r, a1)"
    by (cases "process_try_create a prog") auto
  from Cons.prems tc obtain rest1 created1 where
    sp: "admission_scan_spec a1 queue = Inr (rest1, created1, a')"
    by (cases "admission_scan_spec a1 queue"; cases r) auto
  note st = process_try_create_strategy [OF tc]
  from Cons.IH [OF sp] st have ih: "strategy a' = strategy a"
    "\<forall>p \<in> set created1. (pBlock p = None \<longleftrightarrow> strategy a \<noteq> BEST_FIT) \<and> state p = READY \<and>
      run_time p = 0 \<and> child_pid p = PID_NULL_HANDLE \<and> pProgram p \<in> set (prog # queue)"
    by auto
  show ?case
  proof (cases r)
    case None
    with Cons.prems tc sp have "created = created1" by simp
    with ih show ?thesis by simp
  next
    case (Some pr)
    with Cons.prems tc sp have c: "created = pr # created1" by simp
    from process_try_create_Some [OF tc [unfolded Some]] ih c show ?thesis by simp
  qed
qed

lemma ready_lines_eq:
  assumes "\<forall>p \<in> set created. (pBlock p = None \<longleftrightarrow> strat \<noteq> BEST_FIT)"
  shows "printed (ready_lines t created) =
           (if strat = BEST_FIT
            then map (\<lambda>p. print_d t @ '',READY,process_name='' @ name (pProgram p) @
                          '',assigned_at='' @ print_d (index (the (pBlock p)))) created
            else [])"
  using assms by (induction created) (auto simp: ready_lines_Cons)

text \<open>
  C8, as the code has it. Admission prints the line
  \<open><time>,READY,process_name=<name>,assigned_at=<offset>\<close> for each process admitted under
  the best-fit strategy and nothing under the unbounded one, where a process holds no
  block. \<open>process_run\<close> prints the one line
  \<open><time>,RUNNING,process_name=<name>,remaining_time=<service_time - run_time>\<close>. A
  termination in \<open>update\<close> sets the process \<open>FINISHED\<close> and prints exactly two lines,
  \<open><time>,FINISHED,process_name=<name>,proc_remaining=<pending_count>\<close> and
  \<open><time>,FINISHED-PROCESS,process_name=<name>,sha=<hash>\<close>, with the time after the
  quantum and the count after the decrement. The numbers are printed with \<open>%d\<close>.
\<close>

theorem log_lines:
  "(check_pending s = Inr s1 \<longrightarrow>
      (\<exists>created. list_active s1 = list_active s @ created \<and>
         printed (trace s1) = printed (trace s) @
           (if strategy (allocator s) = BEST_FIT
            then map (\<lambda>p. print_d (time s) @ '',READY,process_name='' @ name (pProgram p) @
                          '',assigned_at='' @ print_d (index (the (pBlock p)))) created
            else []))) \<and>
   (p < length (list_active s) \<and> process_run w s p = Inr s2 \<longrightarrow>
      state (list_active s2 ! p) = RUNNING \<and>
      printed (trace s2) = printed (trace s) @
        [print_d (time s) @ '',RUNNING,process_name='' @ name (pProgram (list_active s ! p)) @
         '',remaining_time='' @
         print_d (service_time (pProgram (list_active s ! p)) - run_time (list_active s ! p))]) \<and>
   (pRunningProcess s = Some r \<and> r < length (list_active s) \<and>
    service_time (pProgram (list_active s ! r)) \<le> run_time (list_active s ! r) + d \<and>
    update w after_equal s d = Inr s3 \<longrightarrow>
      state (list_active s3 ! r) = FINISHED \<and>
      printed (trace s3) = printed (trace s) @
        [print_d (time s + d) @ '',FINISHED,process_name='' @
         name (pProgram (list_active s ! r)) @ '',proc_remaining='' @
         print_d (pending_count s - 1),
         print_d (time s + d) @ '',FINISHED-PROCESS,process_name='' @
         name (pProgram (list_active s ! r)) @ '',sha='' @
         take SHA_HASH_SIZE (sha_hash w (name (pProgram (list_active s ! r))))])"
proof (intro conjI)
  show "check_pending s = Inr s1 \<longrightarrow>
      (\<exists>created. list_active s1 = list_active s @ created \<and>
         printed (trace s1) = printed (trace s) @
           (if strategy (allocator s) = BEST_FIT
            then map (\<lambda>p. print_d (time s) @ '',READY,process_name='' @ name (pProgram p) @
                          '',assigned_at='' @ print_d (index (the (pBlock p)))) created
            else []))"
  proof
    assume "check_pending s = Inr s1"
    from check_pending_Inr [OF this] obtain created where
      sp: "admission_scan_spec (allocator s)
            (list_input s @
             takeWhile (\<lambda>p. time_arrived p \<le> time s) (drop (index_cp s) (pPrograms s))) =
            Inr (list_input s1, created, allocator s1)"
      and a: "list_active s1 = list_active s @ created"
      and t: "trace s1 = trace s @ ready_lines (time s) created"
      by blast
    from admission_scan_spec_created [OF sp]
    have "\<forall>p \<in> set created. (pBlock p = None \<longleftrightarrow> strategy (allocator s) \<noteq> BEST_FIT)"
      by blast
    from ready_lines_eq [OF this, of "time s"] a t
    show "\<exists>created. list_active s1 = list_active s @ created \<and>
         printed (trace s1) = printed (trace s) @
           (if strategy (allocator s) = BEST_FIT
            then map (\<lambda>p. print_d (time s) @ '',READY,process_name='' @ name (pProgram p) @
                          '',assigned_at='' @ print_d (index (the (pBlock p)))) created
            else [])"
      by auto
  qed
  show "p < length (list_active s) \<and> process_run w s p = Inr s2 \<longrightarrow>
      state (list_active s2 ! p) = RUNNING \<and>
      printed (trace s2) = printed (trace s) @
        [print_d (time s) @ '',RUNNING,process_name='' @ name (pProgram (list_active s ! p)) @
         '',remaining_time='' @
         print_d (service_time (pProgram (list_active s ! p)) - run_time (list_active s ! p))]"
  proof
    assume h: "p < length (list_active s) \<and> process_run w s p = Inr s2"
    then have p: "p < length (list_active s)" and run: "process_run w s p = Inr s2" by simp_all
    from process_run_trace(2) [OF p run] p have "state (list_active s2 ! p) = RUNNING" by auto
    with process_run_trace(1) [OF p run]
    show "state (list_active s2 ! p) = RUNNING \<and>
      printed (trace s2) = printed (trace s) @
        [print_d (time s) @ '',RUNNING,process_name='' @ name (pProgram (list_active s ! p)) @
         '',remaining_time='' @
         print_d (service_time (pProgram (list_active s ! p)) - run_time (list_active s ! p))]"
      by simp
  qed
  show "pRunningProcess s = Some r \<and> r < length (list_active s) \<and>
    service_time (pProgram (list_active s ! r)) \<le> run_time (list_active s ! r) + d \<and>
    update w after_equal s d = Inr s3 \<longrightarrow>
      state (list_active s3 ! r) = FINISHED \<and>
      printed (trace s3) = printed (trace s) @
        [print_d (time s + d) @ '',FINISHED,process_name='' @
         name (pProgram (list_active s ! r)) @ '',proc_remaining='' @
         print_d (pending_count s - 1),
         print_d (time s + d) @ '',FINISHED-PROCESS,process_name='' @
         name (pProgram (list_active s ! r)) @ '',sha='' @
         take SHA_HASH_SIZE (sha_hash w (name (pProgram (list_active s ! r))))]"
  proof
    assume h: "pRunningProcess s = Some r \<and> r < length (list_active s) \<and>
      service_time (pProgram (list_active s ! r)) \<le> run_time (list_active s ! r) + d \<and>
      update w after_equal s d = Inr s3"
    then have a: "pRunningProcess s = Some r" "r < length (list_active s)"
      "service_time (pProgram (list_active s ! r)) \<le> run_time (list_active s ! r) + d"
      "update w after_equal s d = Inr s3" by simp_all
    from update_finish(2) [OF a] a(2) have "state (list_active s3 ! r) = FINISHED" by simp
    with update_finish(3) [OF a]
    show "state (list_active s3 ! r) = FINISHED \<and>
      printed (trace s3) = printed (trace s) @
        [print_d (time s + d) @ '',FINISHED,process_name='' @
         name (pProgram (list_active s ! r)) @ '',proc_remaining='' @
         print_d (pending_count s - 1),
         print_d (time s + d) @ '',FINISHED-PROCESS,process_name='' @
         name (pProgram (list_active s ! r)) @ '',sha='' @
         take SHA_HASH_SIZE (sha_hash w (name (pProgram (list_active s ! r))))]"
      by simp
  qed
qed

lemmas engine_defs =
  check_pending_def check_pending_arrivals_eq check_pending_scan.simps
  process_manager_initialise_def program_add_def allocator_initialise_def
  list_insert_head_def list_insert_tail_def list_pop_node_def BUFFER_SIZE_def
  process_try_create_def allocator_find_best_fit_def process_submit_ready_def
  process_log_def process_run_def process_continue_def process_suspend_def
  process_terminate_def update_def keep_process_running_def switch_process_def
  main_loop_body_def allocater_free_memory_def release_block_def mem_block_cmp_def
  shortest_job_first_def round_robin_def should_terminate_def
  print_d_def digits_of.simps PID_NULL_HANDLE_def SHA_HASH_SIZE_def Let_def

theorem log_lines_witness:
  "\<exists>s1 s2 s3.
     check_pending
       (foldl program_add (process_manager_initialise SJF BEST_FIT)
          [\<lparr>name = ''P1'', time_arrived = 0, service_time = 3, memory_required = 100\<rparr>]) = Inr s1 \<and>
     printed (trace s1) = [''0,READY,process_name=P1,assigned_at=0''] \<and>
     0 < length (list_active s1) \<and>
     process_run \<lparr>fork_pid = \<lambda>n. 7, verify_byte = \<lambda>n t. ucast t, sha_hash = \<lambda>n. ''abc''\<rparr>
       (s1\<lparr>pRunningProcess := Some 0\<rparr>) 0 = Inr s2 \<and>
     printed (trace s2) =
       [''0,READY,process_name=P1,assigned_at=0'', ''0,RUNNING,process_name=P1,remaining_time=3''] \<and>
     pRunningProcess s2 = Some 0 \<and>
     service_time (pProgram (list_active s2 ! 0)) \<le> run_time (list_active s2 ! 0) + 3 \<and>
     update \<lparr>fork_pid = \<lambda>n. 7, verify_byte = \<lambda>n t. ucast t, sha_hash = \<lambda>n. ''abc''\<rparr> True s2 3 =
       Inr s3 \<and>
     state (list_active s3 ! 0) = FINISHED \<and>
     printed (trace s3) =
       [''0,READY,process_name=P1,assigned_at=0'', ''0,RUNNING,process_name=P1,remaining_time=3'',
        ''3,FINISHED,process_name=P1,proc_remaining=0'',
        ''3,FINISHED-PROCESS,process_name=P1,sha=abc'']"
proof -
  let ?w = "\<lparr>fork_pid = \<lambda>n. 7, verify_byte = \<lambda>n t. ucast t, sha_hash = \<lambda>n. ''abc''\<rparr>"
  let ?P1 = "\<lparr>name = ''P1'', time_arrived = 0, service_time = 3, memory_required = 100\<rparr>"
  let ?s0 = "foldl program_add (process_manager_initialise SJF BEST_FIT) [?P1]"
  let ?s1 = "\<lparr>time = 0, pPrograms = [?P1], pending_count = 1, type_pm = SJF, index_cp = 1,
      list_input = [],
      list_active = [\<lparr>pProgram = ?P1, run_time = 0, state = READY,
                      pBlock = Some \<lparr>index = 0, size_mb = 100\<rparr>, child_pid = - 2, sha_buf = []\<rparr>],
      list_ready = [0], pRunningProcess = None,
      allocator = \<lparr>free_list = [\<lparr>index = 100, size_mb = 1948\<rparr>], strategy = BEST_FIT\<rparr>,
      trace = [Printf ''0,READY,process_name=P1,assigned_at=0'']\<rparr>"
  let ?s2 = "\<lparr>time = 0, pPrograms = [?P1], pending_count = 1, type_pm = SJF, index_cp = 1,
      list_input = [],
      list_active = [\<lparr>pProgram = ?P1, run_time = 0, state = RUNNING,
                      pBlock = Some \<lparr>index = 0, size_mb = 100\<rparr>, child_pid = 7, sha_buf = []\<rparr>],
      list_ready = [0], pRunningProcess = Some 0,
      allocator = \<lparr>free_list = [\<lparr>index = 100, size_mb = 1948\<rparr>], strategy = BEST_FIT\<rparr>,
      trace = [Printf ''0,READY,process_name=P1,assigned_at=0'',
               Printf ''0,RUNNING,process_name=P1,remaining_time=3'',
               Fork ''P1'' 7, Write_time 7 0]\<rparr>"
  have c: "check_pending ?s0 = Inr ?s1"
    by (simp add: engine_defs)
  have r: "process_run ?w (?s1\<lparr>pRunningProcess := Some 0\<rparr>) 0 = Inr ?s2"
    by (simp add: engine_defs)
  have "\<exists>s3. update ?w True ?s2 3 = Inr s3"
    by (simp add: engine_defs)
  then obtain s3 where u: "update ?w True ?s2 3 = Inr s3" ..
  from log_lines [where s = ?s0 and ?s1.0 = ?s1, THEN conjunct1, THEN mp, OF c]
  obtain created where "list_active ?s1 = list_active ?s0 @ created"
    and p1: "printed (trace ?s1) = printed (trace ?s0) @
           (if strategy (allocator ?s0) = BEST_FIT
            then map (\<lambda>p. print_d (time ?s0) @ '',READY,process_name='' @ name (pProgram p) @
                          '',assigned_at='' @ print_d (index (the (pBlock p)))) created
            else [])"
    by blast
  have l1: "printed (trace ?s1) = [''0,READY,process_name=P1,assigned_at=0'']" by simp
  have h2: "0 < length (list_active (?s1\<lparr>pRunningProcess := Some 0\<rparr>)) \<and>
            process_run ?w (?s1\<lparr>pRunningProcess := Some 0\<rparr>) 0 = Inr ?s2"
    using r by simp
  from log_lines [where s = "?s1\<lparr>pRunningProcess := Some 0\<rparr>" and p = 0 and w = ?w and ?s2.0 = ?s2,
      THEN conjunct2, THEN conjunct1, THEN mp, OF h2]
  have l2: "printed (trace ?s2) =
       [''0,READY,process_name=P1,assigned_at=0'', ''0,RUNNING,process_name=P1,remaining_time=3'']"
    by (simp add: print_d_def digits_of.simps)
  have h3: "pRunningProcess ?s2 = Some 0 \<and> 0 < length (list_active ?s2) \<and>
    service_time (pProgram (list_active ?s2 ! 0)) \<le> run_time (list_active ?s2 ! 0) + 3 \<and>
    update ?w True ?s2 3 = Inr s3"
    using u by simp
  from log_lines [where s = ?s2 and w = ?w and r = 0 and d = 3 and after_equal = True and ?s3.0 = s3,
      THEN conjunct2, THEN conjunct2, THEN mp, OF h3]
  have l3: "state (list_active s3 ! 0) = FINISHED \<and> printed (trace s3) =
       [''0,READY,process_name=P1,assigned_at=0'', ''0,RUNNING,process_name=P1,remaining_time=3'',
        ''3,FINISHED,process_name=P1,proc_remaining=0'',
        ''3,FINISHED-PROCESS,process_name=P1,sha=abc'']"
    by (simp add: print_d_def digits_of.simps SHA_HASH_SIZE_def)
  show ?thesis
    apply (rule exI [of _ ?s1], rule exI [of _ ?s2], rule exI [of _ s3])
    using c l1 r l2 u l3 by simp
qed

theorem log_lines_counterexample:
  "check_pending
     (foldl program_add (process_manager_initialise SJF INFINITE)
        [\<lparr>name = ''P1'', time_arrived = 0, service_time = 3, memory_required = 100\<rparr>]) =
   Inr \<lparr>time = 0,
        pPrograms = [\<lparr>name = ''P1'', time_arrived = 0, service_time = 3, memory_required = 100\<rparr>],
        pending_count = 1, type_pm = SJF, index_cp = 1, list_input = [],
        list_active =
          [\<lparr>pProgram = \<lparr>name = ''P1'', time_arrived = 0, service_time = 3, memory_required = 100\<rparr>,
            run_time = 0, state = READY, pBlock = None, child_pid = - 2, sha_buf = []\<rparr>],
        list_ready = [0], pRunningProcess = None,
        allocator = \<lparr>free_list = [], strategy = INFINITE\<rparr>,
        trace = []\<rparr> \<and>
   process_log
     (foldl program_add (process_manager_initialise SJF INFINITE)
        [\<lparr>name = ''P1'', time_arrived = 0, service_time = 3, memory_required = 100\<rparr>])
     \<lparr>pProgram = \<lparr>name = ''P1'', time_arrived = 0, service_time = 3, memory_required = 100\<rparr>,
      run_time = 3, state = FINISHED, pBlock = None, child_pid = 7, sha_buf = ''abc''\<rparr> =
   Inr [Printf ''0,FINISHED,process_name=P1,proc_remaining=0'',
        Printf ''0,FINISHED-PROCESS,process_name=P1,sha=abc'']"
  by (simp add: engine_defs)

section \<open>Run time\<close>

lemma same_run_times_refl [simp]: "same_run_times xs xs"
  by (simp add: same_run_times_def)

lemma same_run_times_trans:
  "same_run_times xs ys \<Longrightarrow> same_run_times ys zs \<Longrightarrow> same_run_times xs zs"
  by (auto simp: same_run_times_def)

lemma same_run_times_append [simp]: "same_run_times xs (xs @ ys)"
  by (simp add: same_run_times_def nth_append)

lemma same_run_times_update:
  "run_time p = run_time (xs ! r) \<Longrightarrow> pProgram p = pProgram (xs ! r) \<Longrightarrow>
   same_run_times xs (xs[r := p])"
  by (cases "r < length xs") (auto simp: same_run_times_def nth_list_update)

lemma engine_inv_start:
  "engine_inv quantum (foldl program_add (process_manager_initialise ty strat) progs)"
proof -
  have "list_ready (foldl program_add s progs) = list_ready s \<and>
        list_active (foldl program_add s progs) = list_active s \<and>
        pRunningProcess (foldl program_add s progs) = pRunningProcess s" for s
    by (induction progs arbitrary: s) (simp_all add: program_add_def)
  then show ?thesis
    by (simp add: engine_inv_def process_manager_initialise_def)
qed

lemma check_pending_inv:
  assumes inv: "engine_inv quantum s" and c: "check_pending s = Inr s'"
  shows "engine_inv quantum s'" and "same_run_times (list_active s) (list_active s')"
proof -
  from check_pending_Inr [OF c] obtain created where
    sp: "admission_scan_spec (allocator s)
            (list_input s @
             takeWhile (\<lambda>p. time_arrived p \<le> time s) (drop (index_cp s) (pPrograms s))) =
            Inr (list_input s', created, allocator s')"
    and a: "list_active s' = list_active s @ created"
    and r: "list_ready s' = list_ready s @
       [length (list_active s) ..< length (list_active s) + length created]"
    and run: "pRunningProcess s' = pRunningProcess s"
    by blast
  from admission_scan_spec_created [OF sp]
  have cr: "\<forall>p \<in> set created. state p = READY \<and> run_time p = 0" by blast
  show "same_run_times (list_active s) (list_active s')" by (simp add: a)
  have old: "\<forall>p \<in> set (list_ready s). p < length (list_active s) \<and>
               state (list_active s ! p) = READY"
    and dist: "distinct (list_ready s)"
    and rn: "\<forall>r. pRunningProcess s = Some r \<longrightarrow>
        r < length (list_active s) \<and> state (list_active s ! r) = RUNNING"
    and i4: "\<forall>p \<in> set (list_active s). state p \<noteq> FINISHED \<longrightarrow>
        run_time p = 0 \<or> run_time p < service_time (pProgram p)"
    and i5: "\<forall>p \<in> set (list_active s).
        unat (run_time p) \<le> unat (service_time (pProgram p)) + unat quantum"
    using inv by (simp_all add: engine_inv_def)
  have 1: "\<forall>p \<in> set (list_ready s'). p < length (list_active s') \<and>
               state (list_active s' ! p) = READY"
  proof
    fix p assume "p \<in> set (list_ready s')"
    then consider "p \<in> set (list_ready s)"
      | "length (list_active s) \<le> p" "p < length (list_active s) + length created"
      unfolding r by auto
    then show "p < length (list_active s') \<and> state (list_active s' ! p) = READY"
    proof cases
      case 1
      with old have "p < length (list_active s)" "state (list_active s ! p) = READY"
        by simp_all
      then show ?thesis by (simp add: a nth_append)
    next
      case 2
      then have "created ! (p - length (list_active s)) \<in> set created" by simp
      with cr 2 show ?thesis by (simp add: a nth_append)
    qed
  qed
  have 2: "distinct (list_ready s')"
    unfolding r using dist old by auto
  have 3: "\<forall>r. pRunningProcess s' = Some r \<longrightarrow>
        r < length (list_active s') \<and> state (list_active s' ! r) = RUNNING"
    using rn by (auto simp: run a nth_append)
  have 4: "\<forall>p \<in> set (list_active s'). state p \<noteq> FINISHED \<longrightarrow>
        run_time p = 0 \<or> run_time p < service_time (pProgram p)"
    using i4 cr by (auto simp: a)
  have 5: "\<forall>p \<in> set (list_active s').
        unat (run_time p) \<le> unat (service_time (pProgram p)) + unat quantum"
    using i5 cr by (auto simp: a)
  show "engine_inv quantum s'"
    unfolding engine_inv_def using 1 2 3 4 5 by blast
qed


lemma ball_list_update:
  "\<forall>p \<in> set xs. P p \<Longrightarrow> P x \<Longrightarrow> \<forall>p \<in> set (xs[r := x]). P p"
  using set_update_subset_insert [of xs r x] by auto

lemma keep_process_running_inv:
  assumes inv: "engine_inv quantum s" and k: "keep_process_running w s = Inr (b, s')"
  shows "engine_inv quantum s'" and "same_run_times (list_active s) (list_active s')"
    and "\<not> b \<longrightarrow> pRunningProcess s' = None"
proof -
  have old: "\<forall>p \<in> set (list_ready s). p < length (list_active s) \<and>
               state (list_active s ! p) = READY"
    and dist: "distinct (list_ready s)"
    and rn: "\<forall>r. pRunningProcess s = Some r \<longrightarrow>
        r < length (list_active s) \<and> state (list_active s ! r) = RUNNING"
    and i4: "\<forall>p \<in> set (list_active s). state p \<noteq> FINISHED \<longrightarrow>
        run_time p = 0 \<or> run_time p < service_time (pProgram p)"
    and i5: "\<forall>p \<in> set (list_active s).
        unat (run_time p) \<le> unat (service_time (pProgram p)) + unat quantum"
    using inv by (simp_all add: engine_inv_def)
  have "engine_inv quantum s' \<and> same_run_times (list_active s) (list_active s') \<and>
        (\<not> b \<longrightarrow> pRunningProcess s' = None)"
  proof (cases "pRunningProcess s")
    case None
    with k have "s' = s" "\<not> b" by (simp_all add: keep_process_running_def)
    with inv None show ?thesis by simp
  next
    case (Some r)
    with rn have r: "r < length (list_active s)" "state (list_active s ! r) = RUNNING" by simp_all
    show ?thesis
    proof (cases "type_pm s = SJF \<or> list_ready s = []")
      case True
      with k Some have "process_continue w s r = Inr s'" "b"
        by (cases "type_pm s"; auto simp: keep_process_running_def split: sum.splits)+
      from process_continue_Inr [OF this(1)] inv \<open>b\<close> show ?thesis
        by (simp add: engine_inv_def)
    next
      case False
      then have rr: "type_pm s = RR" "list_ready s \<noteq> []" by (cases "type_pm s"; simp)+
      let ?x = "(list_active s ! r)\<lparr>state := READY\<rparr>"
      from k Some rr have s': "s' = (process_submit_ready (process_suspend s r) r)\<lparr>pRunningProcess := None\<rparr>"
        and nb: "\<not> b"
        by (simp_all add: keep_process_running_def)
      have f: "list_active s' = (list_active s)[r := ?x]" "list_ready s' = list_ready s @ [r]"
        "pRunningProcess s' = None"
        by (simp_all add: s' process_submit_ready_def process_suspend_def Let_def
            list_insert_tail_def)
      have notin: "r \<notin> set (list_ready s)" using old r(2) by auto
      have 1: "\<forall>p \<in> set (list_ready s'). p < length (list_active s') \<and>
               state (list_active s' ! p) = READY"
        using old r(1) notin by (auto simp: f nth_list_update)
      have 2: "distinct (list_ready s')" using dist notin by (simp add: f)
      have xin: "list_active s ! r \<in> set (list_active s)" using r(1) by simp
      have 4: "\<forall>p \<in> set (list_active s'). state p \<noteq> FINISHED \<longrightarrow>
        run_time p = 0 \<or> run_time p < service_time (pProgram p)"
        unfolding f(1) using i4 xin r(2) by (intro ball_list_update) auto
      have 5: "\<forall>p \<in> set (list_active s').
        unat (run_time p) \<le> unat (service_time (pProgram p)) + unat quantum"
        unfolding f(1) using i5 xin by (intro ball_list_update) auto
      have "same_run_times (list_active s) (list_active s')"
        unfolding f(1) by (rule same_run_times_update) simp_all
      with 1 2 4 5 f(3) nb show ?thesis by (simp add: engine_inv_def)
    qed
  qed
  then show "engine_inv quantum s'" and "same_run_times (list_active s) (list_active s')"
    and "\<not> b \<longrightarrow> pRunningProcess s' = None" by simp_all
qed

lemma set_list_pop_node:
  "distinct xs \<Longrightarrow> k < length xs \<Longrightarrow>
   set (list_pop_node xs k) = set xs - {xs ! k} \<and> distinct (list_pop_node xs k)"
proof -
  assume d: "distinct xs" and k: "k < length xs"
  have xs: "xs = take k xs @ xs ! k # drop (Suc k) xs" using k by (rule id_take_nth_drop)
  have "distinct (take k xs @ xs ! k # drop (Suc k) xs)" using d xs by simp
  then have "xs ! k \<notin> set (take k xs) \<and> xs ! k \<notin> set (drop (Suc k) xs) \<and>
             distinct (take k xs @ drop (Suc k) xs)" by auto
  moreover have "set xs = set (take k xs) \<union> {xs ! k} \<union> set (drop (Suc k) xs)"
    using arg_cong [OF xs, of set] by auto
  ultimately show ?thesis by (auto simp: list_pop_node_def)
qed

lemma switch_process_inv:
  assumes inv: "engine_inv quantum s" and sw: "switch_process w s = Inr s'"
  shows "engine_inv quantum s'" and "same_run_times (list_active s) (list_active s')"
proof -
  have old: "\<forall>p \<in> set (list_ready s). p < length (list_active s) \<and>
               state (list_active s ! p) = READY"
    and dist: "distinct (list_ready s)"
    and i4: "\<forall>p \<in> set (list_active s). state p \<noteq> FINISHED \<longrightarrow>
        run_time p = 0 \<or> run_time p < service_time (pProgram p)"
    and i5: "\<forall>p \<in> set (list_active s).
        unat (run_time p) \<le> unat (service_time (pProgram p)) + unat quantum"
    using inv by (simp_all add: engine_inv_def)
  let ?sel = "case type_pm s of
              SJF \<Rightarrow> shortest_job_first (map (\<lambda>p. list_active s ! p) (list_ready s))
            | RR \<Rightarrow> round_robin (list_ready s)"
  have "engine_inv quantum s' \<and> same_run_times (list_active s) (list_active s')"
  proof (cases ?sel)
    case None
    with sw have "s' = s" by (simp add: switch_process_def)
    with inv show ?thesis by simp
  next
    case (Some k)
    have k: "k < length (list_ready s)"
    proof (cases "type_pm s")
      case SJF
      with Some have sj: "shortest_job_first (map (\<lambda>p. list_active s ! p) (list_ready s)) = Some k"
        by simp
      then have "map (\<lambda>p. list_active s ! p) (list_ready s) \<noteq> []"
        using shortest_job_first_Nil by auto
      from shortest_job_first_first_least [OF this] sj show ?thesis
        by (auto simp: first_least_def)
    next
      case RR
      with Some show ?thesis by (auto simp: round_robin_def split: if_splits)
    qed
    let ?r = "list_ready s ! k"
    have rin: "?r \<in> set (list_ready s)" using k by simp
    with old have r: "?r < length (list_active s)" "state (list_active s ! ?r) = READY"
      by simp_all
    from sw Some obtain s1 where
      run: "process_run w (s\<lparr>pRunningProcess := Some ?r\<rparr>) ?r = Inr s1"
      and s': "s' = s1\<lparr>list_ready := list_pop_node (list_ready s1) k\<rparr>"
      by (auto simp: switch_process_def Let_def split: sum.splits)
    from process_run_trace(2) [OF _ run] r(1) obtain pid where
      act: "list_active s1 = (list_active s)[?r := (list_active s ! ?r)\<lparr>state := RUNNING, child_pid := pid\<rparr>]"
      by auto
    from process_run_Inr [OF run]
    have f1: "list_ready s1 = list_ready s" "pRunningProcess s1 = Some ?r" by simp_all
    have f: "list_active s' = (list_active s)[?r := (list_active s ! ?r)\<lparr>state := RUNNING, child_pid := pid\<rparr>]"
      "list_ready s' = list_pop_node (list_ready s) k" "pRunningProcess s' = Some ?r"
      by (simp_all add: s' act f1)
    note pop = set_list_pop_node [OF dist k]
    have 1: "\<forall>p \<in> set (list_ready s'). p < length (list_active s') \<and>
               state (list_active s' ! p) = READY"
      using old pop by (auto simp: f nth_list_update)
    have 2: "distinct (list_ready s')" using pop by (simp add: f)
    have 3: "\<forall>r. pRunningProcess s' = Some r \<longrightarrow>
        r < length (list_active s') \<and> state (list_active s' ! r) = RUNNING"
      using r(1) by (simp add: f)
    have xin: "list_active s ! ?r \<in> set (list_active s)" using r(1) by simp
    have 4: "\<forall>p \<in> set (list_active s'). state p \<noteq> FINISHED \<longrightarrow>
        run_time p = 0 \<or> run_time p < service_time (pProgram p)"
      unfolding f(1) using i4 xin r(2) by (intro ball_list_update) auto
    have 5: "\<forall>p \<in> set (list_active s').
        unat (run_time p) \<le> unat (service_time (pProgram p)) + unat quantum"
      unfolding f(1) using i5 xin by (intro ball_list_update) auto
    have "same_run_times (list_active s) (list_active s')"
      unfolding f(1) by (rule same_run_times_update) simp_all
    with 1 2 3 4 5 show ?thesis by (simp add: engine_inv_def)
  qed
  then show "engine_inv quantum s'" and "same_run_times (list_active s) (list_active s')"
    by simp_all
qed


lemma unat_add_le: "unat (a + q) \<le> unat a + unat q" for a q :: "32 word"
  by (simp add: unat_word_ariths)

lemma update_inv:
  assumes inv: "engine_inv quantum s" and u: "update w ae s quantum = Inr s'"
  shows "engine_inv quantum s'"
    and "length (list_active s') = length (list_active s)"
    and "\<forall>i < length (list_active s).
           pProgram (list_active s' ! i) = pProgram (list_active s ! i) \<and>
           (run_time (list_active s' ! i) = run_time (list_active s ! i) \<or>
            run_time (list_active s' ! i) = run_time (list_active s ! i) + quantum)"
    and "\<forall>r. pRunningProcess s' = Some r \<longrightarrow>
           run_time (list_active s' ! r) < service_time (pProgram (list_active s' ! r))"
proof -
  have old: "\<forall>p \<in> set (list_ready s). p < length (list_active s) \<and>
               state (list_active s ! p) = READY"
    and dist: "distinct (list_ready s)"
    and rn: "\<forall>r. pRunningProcess s = Some r \<longrightarrow>
        r < length (list_active s) \<and> state (list_active s ! r) = RUNNING"
    and i4: "\<forall>p \<in> set (list_active s). state p \<noteq> FINISHED \<longrightarrow>
        run_time p = 0 \<or> run_time p < service_time (pProgram p)"
    and i5: "\<forall>p \<in> set (list_active s).
        unat (run_time p) \<le> unat (service_time (pProgram p)) + unat quantum"
    using inv by (simp_all add: engine_inv_def)
  let ?goal = "engine_inv quantum s' \<and> length (list_active s') = length (list_active s) \<and>
    (\<forall>i < length (list_active s).
           pProgram (list_active s' ! i) = pProgram (list_active s ! i) \<and>
           (run_time (list_active s' ! i) = run_time (list_active s ! i) \<or>
            run_time (list_active s' ! i) = run_time (list_active s ! i) + quantum)) \<and>
    (\<forall>r. pRunningProcess s' = Some r \<longrightarrow>
           run_time (list_active s' ! r) < service_time (pProgram (list_active s' ! r)))"
  have ?goal
  proof (cases "pRunningProcess s")
    case None
    with u have "s' = s\<lparr>time := time s + quantum\<rparr>" by (simp add: update_None)
    with inv None show ?thesis by (simp add: engine_inv_def)
  next
    case (Some r)
    with rn have r: "r < length (list_active s)" "state (list_active s ! r) = RUNNING" by simp_all
    let ?p = "list_active s ! r"
    have pin: "?p \<in> set (list_active s)" using r(1) by simp
    have notin: "r \<notin> set (list_ready s)" using old r(2) by auto
    have "run_time ?p = 0 \<or> run_time ?p < service_time (pProgram ?p)"
      using i4 pin r(2) by auto
    then have "unat (run_time ?p) \<le> unat (service_time (pProgram ?p))"
      by (auto simp: word_less_nat_alt)
    with unat_add_le [of "run_time ?p" quantum]
    have bound: "unat (run_time ?p + quantum) \<le> unat (service_time (pProgram ?p)) + unat quantum"
      by simp
    show ?thesis
    proof (cases "service_time (pProgram ?p) \<le> run_time ?p + quantum")
      case False
      let ?x = "?p\<lparr>run_time := run_time ?p + quantum\<rparr>"
      from update_continue [OF Some r(1) False, of w ae] u
      have s': "s' = s\<lparr>time := time s + quantum, list_active := (list_active s)[r := ?x]\<rparr>"
        by simp
      have f: "list_active s' = (list_active s)[r := ?x]" "list_ready s' = list_ready s"
        "pRunningProcess s' = Some r"
        by (simp_all add: s' Some)
      have 1: "\<forall>p \<in> set (list_ready s'). p < length (list_active s') \<and>
               state (list_active s' ! p) = READY"
        using old notin r(1) by (auto simp: f nth_list_update)
      have 3: "\<forall>q. pRunningProcess s' = Some q \<longrightarrow>
        q < length (list_active s') \<and> state (list_active s' ! q) = RUNNING"
        using r by (simp add: f)
      have 4: "\<forall>p \<in> set (list_active s'). state p \<noteq> FINISHED \<longrightarrow>
        run_time p = 0 \<or> run_time p < service_time (pProgram p)"
        unfolding f(1) using i4 False by (intro ball_list_update) (auto simp: not_le)
      have 5: "\<forall>p \<in> set (list_active s').
        unat (run_time p) \<le> unat (service_time (pProgram p)) + unat quantum"
        unfolding f(1) using i5 bound by (intro ball_list_update) auto
      have 6: "\<forall>i < length (list_active s).
           pProgram (list_active s' ! i) = pProgram (list_active s ! i) \<and>
           (run_time (list_active s' ! i) = run_time (list_active s ! i) \<or>
            run_time (list_active s' ! i) = run_time (list_active s ! i) + quantum)"
        using r(1) by (auto simp: f nth_list_update)
      have 7: "\<forall>q. pRunningProcess s' = Some q \<longrightarrow>
           run_time (list_active s' ! q) < service_time (pProgram (list_active s' ! q))"
        using False r(1) by (simp add: f not_le)
      have 2: "distinct (list_ready s')" using dist by (simp add: f)
      have inv': "engine_inv quantum s'" unfolding engine_inv_def using 1 2 3 4 5 by blast
      have len: "length (list_active s') = length (list_active s)" by (simp add: f)
      from inv' len 6 7 show ?thesis by blast
    next
      case True
      let ?x = "?p\<lparr>run_time := run_time ?p + quantum,
               sha_buf := take SHA_HASH_SIZE (sha_hash w (name (pProgram ?p))),
               state := FINISHED,
               pBlock := (if strategy (allocator s) = BEST_FIT then None else pBlock ?p)\<rparr>"
      note uf = update_finish [OF Some r(1) True u]
      have f: "list_active s' = (list_active s)[r := ?x]" "list_ready s' = list_ready s"
        "pRunningProcess s' = None"
        using uf(1,2,5) by simp_all
      have 1: "\<forall>p \<in> set (list_ready s'). p < length (list_active s') \<and>
               state (list_active s' ! p) = READY"
        using old notin r(1) by (auto simp: f nth_list_update)
      have 4: "\<forall>p \<in> set (list_active s'). state p \<noteq> FINISHED \<longrightarrow>
        run_time p = 0 \<or> run_time p < service_time (pProgram p)"
        unfolding f(1) using i4 by (intro ball_list_update) auto
      have 5: "\<forall>p \<in> set (list_active s').
        unat (run_time p) \<le> unat (service_time (pProgram p)) + unat quantum"
        unfolding f(1) using i5 bound by (intro ball_list_update) auto
      have 6: "\<forall>i < length (list_active s).
           pProgram (list_active s' ! i) = pProgram (list_active s ! i) \<and>
           (run_time (list_active s' ! i) = run_time (list_active s ! i) \<or>
            run_time (list_active s' ! i) = run_time (list_active s ! i) + quantum)"
        using r(1) by (auto simp: f nth_list_update)
      have 2: "distinct (list_ready s')" using dist by (simp add: f)
      have 3: "\<forall>q. pRunningProcess s' = Some q \<longrightarrow>
        q < length (list_active s') \<and> state (list_active s' ! q) = RUNNING"
        by (simp add: f)
      have 7: "\<forall>q. pRunningProcess s' = Some q \<longrightarrow>
           run_time (list_active s' ! q) < service_time (pProgram (list_active s' ! q))"
        by (simp add: f)
      have inv': "engine_inv quantum s'" unfolding engine_inv_def using 1 2 3 4 5 by blast
      have len: "length (list_active s') = length (list_active s)" by (simp add: f)
      from inv' len 6 7 show ?thesis by blast
    qed
  qed
  then show "engine_inv quantum s'"
    and "length (list_active s') = length (list_active s)"
    and "\<forall>i < length (list_active s).
           pProgram (list_active s' ! i) = pProgram (list_active s ! i) \<and>
           (run_time (list_active s' ! i) = run_time (list_active s ! i) \<or>
            run_time (list_active s' ! i) = run_time (list_active s ! i) + quantum)"
    and "\<forall>r. pRunningProcess s' = Some r \<longrightarrow>
           run_time (list_active s' ! r) < service_time (pProgram (list_active s' ! r))"
    by simp_all
qed

lemma main_loop_body_inv:
  assumes inv: "engine_inv quantum s" and m: "main_loop_body w ae quantum s = Inr s'"
  shows "engine_inv quantum s'"
    and "length (list_active s) \<le> length (list_active s')"
    and "\<forall>i < length (list_active s).
           pProgram (list_active s' ! i) = pProgram (list_active s ! i) \<and>
           (run_time (list_active s' ! i) = run_time (list_active s ! i) \<or>
            run_time (list_active s' ! i) = run_time (list_active s ! i) + quantum)"
    and "\<forall>r. pRunningProcess s' = Some r \<longrightarrow>
           run_time (list_active s' ! r) < service_time (pProgram (list_active s' ! r))"
proof -
  from m obtain s1 where c: "check_pending s = Inr s1"
    by (cases "check_pending s") (auto simp: main_loop_body_def)
  from m c obtain b s2 where k: "keep_process_running w s1 = Inr (b, s2)"
    by (cases "keep_process_running w s1") (auto simp: main_loop_body_def)
  from m c k obtain s3 where sw: "(if \<not> b then switch_process w s2 else Inr s2) = Inr s3"
    and u: "update w ae s3 quantum = Inr s'"
    by (cases "if \<not> b then switch_process w s2 else Inr s2")
       (auto simp: main_loop_body_def split: if_splits)
  note i1 = check_pending_inv [OF inv c]
  note i2 = keep_process_running_inv [OF i1(1) k]
  have i3: "engine_inv quantum s3 \<and> same_run_times (list_active s2) (list_active s3)"
  proof (cases b)
    case True
    with sw i2 show ?thesis by simp
  next
    case False
    with sw have "switch_process w s2 = Inr s3" by simp
    from switch_process_inv [OF i2(1) this] show ?thesis by simp
  qed
  note i4 = update_inv [OF i3 [THEN conjunct1] u]
  have srt: "same_run_times (list_active s) (list_active s3)"
    using i1(2) i2(2) i3 by (blast intro: same_run_times_trans)
  show "engine_inv quantum s'" by (rule i4(1))
  show "length (list_active s) \<le> length (list_active s')"
    using srt i4(2) by (simp add: same_run_times_def)
  show "\<forall>r. pRunningProcess s' = Some r \<longrightarrow>
           run_time (list_active s' ! r) < service_time (pProgram (list_active s' ! r))"
    by (rule i4(4))
  show "\<forall>i < length (list_active s).
           pProgram (list_active s' ! i) = pProgram (list_active s ! i) \<and>
           (run_time (list_active s' ! i) = run_time (list_active s ! i) \<or>
            run_time (list_active s' ! i) = run_time (list_active s ! i) + quantum)"
  proof (intro allI impI)
    fix i assume i: "i < length (list_active s)"
    with srt have "i < length (list_active s3)"
      "run_time (list_active s3 ! i) = run_time (list_active s ! i)"
      "pProgram (list_active s3 ! i) = pProgram (list_active s ! i)"
      by (auto simp: same_run_times_def)
    with i4(3) show "pProgram (list_active s' ! i) = pProgram (list_active s ! i) \<and>
           (run_time (list_active s' ! i) = run_time (list_active s ! i) \<or>
            run_time (list_active s' ! i) = run_time (list_active s ! i) + quantum)"
      by auto
  qed
qed

lemma running_inv:
  "running w ae ty strat quantum progs s \<Longrightarrow> engine_inv quantum s"
proof (induction rule: running.induct)
  case start
  show ?case by (rule engine_inv_start)
next
  case (turn s s')
  from main_loop_body_inv(1) [OF turn.IH turn.hyps(3)] show ?case .
qed

text \<open>
  C7, as the code has it. In every state of a run and for every turn of the execution
  loop from it: the registry only grows; the run time of a process either stays or grows
  by exactly one quantum, so it does not decrease as long as the 32-bit sum does not
  wrap around; a process that has not finished has a run time of at most its service
  time (it has not run, or has run for less than its service time), while a finished one
  may have run for more, by at most one quantum; a process whose run time is not zero
  and has reached its service time is \<open>FINISHED\<close>, and the process still running after
  the turn has run for less than its service time. In \<open>update\<close> itself, when the run
  time of the running process with the quantum added reaches or exceeds its service
  time, the process is \<open>FINISHED\<close> and no process is running when \<open>update\<close> returns.
\<close>

theorem run_time_bounds:
  "(running w after_equal ty strat quantum progs s \<and>
    main_loop_body w after_equal quantum s = Inr s' \<longrightarrow>
      length (list_active s) \<le> length (list_active s') \<and>
      (\<forall>i < length (list_active s).
         (run_time (list_active s' ! i) = run_time (list_active s ! i) \<or>
          run_time (list_active s' ! i) = run_time (list_active s ! i) + quantum) \<and>
         (unat (run_time (list_active s ! i)) + unat quantum < 2 ^ 32 \<longrightarrow>
            run_time (list_active s ! i) \<le> run_time (list_active s' ! i))) \<and>
      (\<forall>p \<in> set (list_active s'). state p \<noteq> FINISHED \<longrightarrow>
         run_time p \<le> service_time (pProgram p)) \<and>
      (\<forall>p \<in> set (list_active s').
         unat (run_time p) \<le> unat (service_time (pProgram p)) + unat quantum) \<and>
      (\<forall>p \<in> set (list_active s'). run_time p \<noteq> 0 \<and> service_time (pProgram p) \<le> run_time p \<longrightarrow>
         state p = FINISHED) \<and>
      (\<forall>r. pRunningProcess s' = Some r \<longrightarrow>
         run_time (list_active s' ! r) < service_time (pProgram (list_active s' ! r)))) \<and>
   (pRunningProcess u = Some r \<and> r < length (list_active u) \<and>
    service_time (pProgram (list_active u ! r)) \<le> run_time (list_active u ! r) + d \<and>
    update w after_equal u d = Inr u' \<longrightarrow>
      state (list_active u' ! r) = FINISHED \<and> pRunningProcess u' = None \<and>
      run_time (list_active u' ! r) = run_time (list_active u ! r) + d)"
proof (intro conjI)
  show "running w after_equal ty strat quantum progs s \<and>
    main_loop_body w after_equal quantum s = Inr s' \<longrightarrow>
      length (list_active s) \<le> length (list_active s') \<and>
      (\<forall>i < length (list_active s).
         (run_time (list_active s' ! i) = run_time (list_active s ! i) \<or>
          run_time (list_active s' ! i) = run_time (list_active s ! i) + quantum) \<and>
         (unat (run_time (list_active s ! i)) + unat quantum < 2 ^ 32 \<longrightarrow>
            run_time (list_active s ! i) \<le> run_time (list_active s' ! i))) \<and>
      (\<forall>p \<in> set (list_active s'). state p \<noteq> FINISHED \<longrightarrow>
         run_time p \<le> service_time (pProgram p)) \<and>
      (\<forall>p \<in> set (list_active s').
         unat (run_time p) \<le> unat (service_time (pProgram p)) + unat quantum) \<and>
      (\<forall>p \<in> set (list_active s'). run_time p \<noteq> 0 \<and> service_time (pProgram p) \<le> run_time p \<longrightarrow>
         state p = FINISHED) \<and>
      (\<forall>r. pRunningProcess s' = Some r \<longrightarrow>
         run_time (list_active s' ! r) < service_time (pProgram (list_active s' ! r)))"
  proof
    assume h: "running w after_equal ty strat quantum progs s \<and>
      main_loop_body w after_equal quantum s = Inr s'"
    then have inv: "engine_inv quantum s" using running_inv by blast
    from h have m: "main_loop_body w after_equal quantum s = Inr s'" by simp
    note st = main_loop_body_inv [OF inv m]
    have i4: "\<forall>p \<in> set (list_active s'). state p \<noteq> FINISHED \<longrightarrow>
        run_time p = 0 \<or> run_time p < service_time (pProgram p)"
      and i5: "\<forall>p \<in> set (list_active s').
        unat (run_time p) \<le> unat (service_time (pProgram p)) + unat quantum"
      using st(1) by (simp_all add: engine_inv_def)
    have a: "\<forall>i < length (list_active s).
         (run_time (list_active s' ! i) = run_time (list_active s ! i) \<or>
          run_time (list_active s' ! i) = run_time (list_active s ! i) + quantum) \<and>
         (unat (run_time (list_active s ! i)) + unat quantum < 2 ^ 32 \<longrightarrow>
            run_time (list_active s ! i) \<le> run_time (list_active s' ! i))"
    proof (intro allI impI)
      fix i assume "i < length (list_active s)"
      with st(3) have c: "run_time (list_active s' ! i) = run_time (list_active s ! i) \<or>
          run_time (list_active s' ! i) = run_time (list_active s ! i) + quantum" by blast
      have "run_time (list_active s ! i) \<le> run_time (list_active s' ! i)"
        if "unat (run_time (list_active s ! i)) + unat quantum < 2 ^ 32"
      proof -
        from that have "run_time (list_active s ! i) \<le> run_time (list_active s ! i) + quantum"
          using no_plus_overflow_unat_size [of "run_time (list_active s ! i)" quantum]
          by (simp add: word_size)
        with c show ?thesis by auto
      qed
      with c show "(run_time (list_active s' ! i) = run_time (list_active s ! i) \<or>
          run_time (list_active s' ! i) = run_time (list_active s ! i) + quantum) \<and>
         (unat (run_time (list_active s ! i)) + unat quantum < 2 ^ 32 \<longrightarrow>
            run_time (list_active s ! i) \<le> run_time (list_active s' ! i))"
        by blast
    qed
    have b: "\<forall>p \<in> set (list_active s'). state p \<noteq> FINISHED \<longrightarrow>
         run_time p \<le> service_time (pProgram p)"
      using i4 by auto
    have c: "\<forall>p \<in> set (list_active s'). run_time p \<noteq> 0 \<and> service_time (pProgram p) \<le> run_time p \<longrightarrow>
         state p = FINISHED"
      using i4 by (auto simp: not_less [symmetric])
    from st(2) a b i5 c st(4)
    show "length (list_active s) \<le> length (list_active s') \<and>
      (\<forall>i < length (list_active s).
         (run_time (list_active s' ! i) = run_time (list_active s ! i) \<or>
          run_time (list_active s' ! i) = run_time (list_active s ! i) + quantum) \<and>
         (unat (run_time (list_active s ! i)) + unat quantum < 2 ^ 32 \<longrightarrow>
            run_time (list_active s ! i) \<le> run_time (list_active s' ! i))) \<and>
      (\<forall>p \<in> set (list_active s'). state p \<noteq> FINISHED \<longrightarrow>
         run_time p \<le> service_time (pProgram p)) \<and>
      (\<forall>p \<in> set (list_active s').
         unat (run_time p) \<le> unat (service_time (pProgram p)) + unat quantum) \<and>
      (\<forall>p \<in> set (list_active s'). run_time p \<noteq> 0 \<and> service_time (pProgram p) \<le> run_time p \<longrightarrow>
         state p = FINISHED) \<and>
      (\<forall>r. pRunningProcess s' = Some r \<longrightarrow>
         run_time (list_active s' ! r) < service_time (pProgram (list_active s' ! r)))"
      by blast
  qed
  show "pRunningProcess u = Some r \<and> r < length (list_active u) \<and>
    service_time (pProgram (list_active u ! r)) \<le> run_time (list_active u ! r) + d \<and>
    update w after_equal u d = Inr u' \<longrightarrow>
      state (list_active u' ! r) = FINISHED \<and> pRunningProcess u' = None \<and>
      run_time (list_active u' ! r) = run_time (list_active u ! r) + d"
  proof
    assume "pRunningProcess u = Some r \<and> r < length (list_active u) \<and>
      service_time (pProgram (list_active u ! r)) \<le> run_time (list_active u ! r) + d \<and>
      update w after_equal u d = Inr u'"
    then have a: "pRunningProcess u = Some r" "r < length (list_active u)"
      "service_time (pProgram (list_active u ! r)) \<le> run_time (list_active u ! r) + d"
      "update w after_equal u d = Inr u'" by simp_all
    from update_finish(1,2) [OF a] a(2)
    show "state (list_active u' ! r) = FINISHED \<and> pRunningProcess u' = None \<and>
      run_time (list_active u' ! r) = run_time (list_active u ! r) + d"
      by simp
  qed
qed

theorem run_time_bounds_counterexample:
  "running \<lparr>fork_pid = \<lambda>n. 7, verify_byte = \<lambda>n t. ucast t, sha_hash = \<lambda>n. ''abc''\<rparr> True SJF INFINITE 3
     [\<lparr>name = ''P1'', time_arrived = 0, service_time = 5, memory_required = 0\<rparr>]
     \<lparr>time = 6, pPrograms = [\<lparr>name = ''P1'', time_arrived = 0, service_time =
      5, memory_required = 0\<rparr>], pending_count = 0, type_pm = SJF, index_cp = 1,
      list_input = [], list_active = [\<lparr>pProgram = \<lparr>name = ''P1'', time_arrived
      = 0, service_time = 5, memory_required = 0\<rparr>, run_time = 6, state = FINISHED,
      pBlock = None, child_pid = 7, sha_buf = ''abc''\<rparr>], list_ready = [],
      pRunningProcess = None, allocator = \<lparr>free_list = [], strategy =
      INFINITE\<rparr>, trace = [Printf ''0,RUNNING,process_name=P1,remaining_time=5'', Fork
      ''P1'' 7, Write_time 7 0, Write_time 7 3, Kill 7 SIGCONT, Write_time 7 6, Kill 7
      SIGTERM, Close_pipes 7, Printf ''6,FINISHED,process_name=P1,proc_remaining=0'', Printf
      ''6,FINISHED-PROCESS,process_name=P1,sha=abc'']\<rparr> \<and>
   \<not> run_time (list_active
        \<lparr>time = 6, pPrograms = [\<lparr>name = ''P1'', time_arrived = 0, service_time =
      5, memory_required = 0\<rparr>], pending_count = 0, type_pm = SJF, index_cp = 1,
      list_input = [], list_active = [\<lparr>pProgram = \<lparr>name = ''P1'', time_arrived
      = 0, service_time = 5, memory_required = 0\<rparr>, run_time = 6, state = FINISHED,
      pBlock = None, child_pid = 7, sha_buf = ''abc''\<rparr>], list_ready = [],
      pRunningProcess = None, allocator = \<lparr>free_list = [], strategy =
      INFINITE\<rparr>, trace = [Printf ''0,RUNNING,process_name=P1,remaining_time=5'', Fork
      ''P1'' 7, Write_time 7 0, Write_time 7 3, Kill 7 SIGCONT, Write_time 7 6, Kill 7
      SIGTERM, Close_pipes 7, Printf ''6,FINISHED,process_name=P1,proc_remaining=0'', Printf
      ''6,FINISHED-PROCESS,process_name=P1,sha=abc'']\<rparr> ! 0)
     \<le> service_time (pProgram (list_active
        \<lparr>time = 6, pPrograms = [\<lparr>name = ''P1'', time_arrived = 0, service_time =
      5, memory_required = 0\<rparr>], pending_count = 0, type_pm = SJF, index_cp = 1,
      list_input = [], list_active = [\<lparr>pProgram = \<lparr>name = ''P1'', time_arrived
      = 0, service_time = 5, memory_required = 0\<rparr>, run_time = 6, state = FINISHED,
      pBlock = None, child_pid = 7, sha_buf = ''abc''\<rparr>], list_ready = [],
      pRunningProcess = None, allocator = \<lparr>free_list = [], strategy =
      INFINITE\<rparr>, trace = [Printf ''0,RUNNING,process_name=P1,remaining_time=5'', Fork
      ''P1'' 7, Write_time 7 0, Write_time 7 3, Kill 7 SIGCONT, Write_time 7 6, Kill 7
      SIGTERM, Close_pipes 7, Printf ''6,FINISHED,process_name=P1,proc_remaining=0'', Printf
      ''6,FINISHED-PROCESS,process_name=P1,sha=abc'']\<rparr> ! 0)) \<and>
   running \<lparr>fork_pid = \<lambda>n. 7, verify_byte = \<lambda>n t. ucast t, sha_hash = \<lambda>n. ''abc''\<rparr> True SJF INFINITE 2147483648
     [\<lparr>name = ''P1'', time_arrived = 0, service_time = 4294967295, memory_required = 0\<rparr>]
     \<lparr>time = 2147483648, pPrograms = [\<lparr>name = ''P1'', time_arrived = 0,
      service_time = 4294967295, memory_required = 0\<rparr>], pending_count = 1, type_pm =
      SJF, index_cp = 1, list_input = [], list_active = [\<lparr>pProgram = \<lparr>name =
      ''P1'', time_arrived = 0, service_time = 4294967295, memory_required = 0\<rparr>,
      run_time = 2147483648, state = RUNNING, pBlock = None, child_pid = 7, sha_buf =
      []\<rparr>], list_ready = [], pRunningProcess = Some 0, allocator = \<lparr>free_list
      = [], strategy = INFINITE\<rparr>, trace = [Printf
      ''0,RUNNING,process_name=P1,remaining_time=-1'', Fork ''P1'' 7, Write_time 7
      0]\<rparr> \<and>
   \<not> should_terminate
     \<lparr>time = 2147483648, pPrograms = [\<lparr>name = ''P1'', time_arrived = 0,
      service_time = 4294967295, memory_required = 0\<rparr>], pending_count = 1, type_pm =
      SJF, index_cp = 1, list_input = [], list_active = [\<lparr>pProgram = \<lparr>name =
      ''P1'', time_arrived = 0, service_time = 4294967295, memory_required = 0\<rparr>,
      run_time = 2147483648, state = RUNNING, pBlock = None, child_pid = 7, sha_buf =
      []\<rparr>], list_ready = [], pRunningProcess = Some 0, allocator = \<lparr>free_list
      = [], strategy = INFINITE\<rparr>, trace = [Printf
      ''0,RUNNING,process_name=P1,remaining_time=-1'', Fork ''P1'' 7, Write_time 7
      0]\<rparr> \<and>
   main_loop_body \<lparr>fork_pid = \<lambda>n. 7, verify_byte = \<lambda>n t. ucast t, sha_hash = \<lambda>n. ''abc''\<rparr> True 2147483648
     \<lparr>time = 2147483648, pPrograms = [\<lparr>name = ''P1'', time_arrived = 0,
      service_time = 4294967295, memory_required = 0\<rparr>], pending_count = 1, type_pm =
      SJF, index_cp = 1, list_input = [], list_active = [\<lparr>pProgram = \<lparr>name =
      ''P1'', time_arrived = 0, service_time = 4294967295, memory_required = 0\<rparr>,
      run_time = 2147483648, state = RUNNING, pBlock = None, child_pid = 7, sha_buf =
      []\<rparr>], list_ready = [], pRunningProcess = Some 0, allocator = \<lparr>free_list
      = [], strategy = INFINITE\<rparr>, trace = [Printf
      ''0,RUNNING,process_name=P1,remaining_time=-1'', Fork ''P1'' 7, Write_time 7
      0]\<rparr> =
   Inr \<lparr>time = 0, pPrograms = [\<lparr>name = ''P1'', time_arrived = 0, service_time =
      4294967295, memory_required = 0\<rparr>], pending_count = 1, type_pm = SJF, index_cp =
      1, list_input = [], list_active = [\<lparr>pProgram = \<lparr>name = ''P1'',
      time_arrived = 0, service_time = 4294967295, memory_required = 0\<rparr>, run_time =
      0, state = RUNNING, pBlock = None, child_pid = 7, sha_buf = []\<rparr>], list_ready =
      [], pRunningProcess = Some 0, allocator = \<lparr>free_list = [], strategy =
      INFINITE\<rparr>, trace = [Printf ''0,RUNNING,process_name=P1,remaining_time=-1'',
      Fork ''P1'' 7, Write_time 7 0, Write_time 7 2147483648, Kill 7 SIGCONT]\<rparr> \<and>
   run_time (list_active
      \<lparr>time = 0, pPrograms = [\<lparr>name = ''P1'', time_arrived = 0, service_time =
      4294967295, memory_required = 0\<rparr>], pending_count = 1, type_pm = SJF, index_cp =
      1, list_input = [], list_active = [\<lparr>pProgram = \<lparr>name = ''P1'',
      time_arrived = 0, service_time = 4294967295, memory_required = 0\<rparr>, run_time =
      0, state = RUNNING, pBlock = None, child_pid = 7, sha_buf = []\<rparr>], list_ready =
      [], pRunningProcess = Some 0, allocator = \<lparr>free_list = [], strategy =
      INFINITE\<rparr>, trace = [Printf ''0,RUNNING,process_name=P1,remaining_time=-1'',
      Fork ''P1'' 7, Write_time 7 0, Write_time 7 2147483648, Kill 7 SIGCONT]\<rparr> ! 0)
   < run_time (list_active
      \<lparr>time = 2147483648, pPrograms = [\<lparr>name = ''P1'', time_arrived = 0,
      service_time = 4294967295, memory_required = 0\<rparr>], pending_count = 1, type_pm =
      SJF, index_cp = 1, list_input = [], list_active = [\<lparr>pProgram = \<lparr>name =
      ''P1'', time_arrived = 0, service_time = 4294967295, memory_required = 0\<rparr>,
      run_time = 2147483648, state = RUNNING, pBlock = None, child_pid = 7, sha_buf =
      []\<rparr>], list_ready = [], pRunningProcess = Some 0, allocator = \<lparr>free_list
      = [], strategy = INFINITE\<rparr>, trace = [Printf
      ''0,RUNNING,process_name=P1,remaining_time=-1'', Fork ''P1'' 7, Write_time 7
      0]\<rparr> ! 0)"
proof -
  let ?w = "\<lparr>fork_pid = \<lambda>n. 7, verify_byte = \<lambda>n t. ucast t, sha_hash = \<lambda>n. ''abc''\<rparr>"
  let ?s0 = "foldl program_add (process_manager_initialise SJF INFINITE) [\<lparr>name = ''P1'', time_arrived = 0, service_time = 5, memory_required = 0\<rparr>]"
  let ?s1 = "\<lparr>time = 3, pPrograms = [\<lparr>name = ''P1'', time_arrived = 0, service_time =
      5, memory_required = 0\<rparr>], pending_count = 1, type_pm = SJF, index_cp = 1,
      list_input = [], list_active = [\<lparr>pProgram = \<lparr>name = ''P1'', time_arrived
      = 0, service_time = 5, memory_required = 0\<rparr>, run_time = 3, state = RUNNING,
      pBlock = None, child_pid = 7, sha_buf = []\<rparr>], list_ready = [], pRunningProcess
      = Some 0, allocator = \<lparr>free_list = [], strategy = INFINITE\<rparr>, trace =
      [Printf ''0,RUNNING,process_name=P1,remaining_time=5'', Fork ''P1'' 7, Write_time 7
      0]\<rparr>"
  let ?s2 = "\<lparr>time = 6, pPrograms = [\<lparr>name = ''P1'', time_arrived = 0, service_time =
      5, memory_required = 0\<rparr>], pending_count = 0, type_pm = SJF, index_cp = 1,
      list_input = [], list_active = [\<lparr>pProgram = \<lparr>name = ''P1'', time_arrived
      = 0, service_time = 5, memory_required = 0\<rparr>, run_time = 6, state = FINISHED,
      pBlock = None, child_pid = 7, sha_buf = ''abc''\<rparr>], list_ready = [],
      pRunningProcess = None, allocator = \<lparr>free_list = [], strategy =
      INFINITE\<rparr>, trace = [Printf ''0,RUNNING,process_name=P1,remaining_time=5'', Fork
      ''P1'' 7, Write_time 7 0, Write_time 7 3, Kill 7 SIGCONT, Write_time 7 6, Kill 7
      SIGTERM, Close_pipes 7, Printf ''6,FINISHED,process_name=P1,proc_remaining=0'', Printf
      ''6,FINISHED-PROCESS,process_name=P1,sha=abc'']\<rparr>"
  let ?t0 = "foldl program_add (process_manager_initialise SJF INFINITE) [\<lparr>name = ''P1'', time_arrived = 0, service_time = 4294967295, memory_required = 0\<rparr>]"
  let ?t1 = "\<lparr>time = 2147483648, pPrograms = [\<lparr>name = ''P1'', time_arrived = 0,
      service_time = 4294967295, memory_required = 0\<rparr>], pending_count = 1, type_pm =
      SJF, index_cp = 1, list_input = [], list_active = [\<lparr>pProgram = \<lparr>name =
      ''P1'', time_arrived = 0, service_time = 4294967295, memory_required = 0\<rparr>,
      run_time = 2147483648, state = RUNNING, pBlock = None, child_pid = 7, sha_buf =
      []\<rparr>], list_ready = [], pRunningProcess = Some 0, allocator = \<lparr>free_list
      = [], strategy = INFINITE\<rparr>, trace = [Printf
      ''0,RUNNING,process_name=P1,remaining_time=-1'', Fork ''P1'' 7, Write_time 7
      0]\<rparr>"
  let ?t2 = "\<lparr>time = 0, pPrograms = [\<lparr>name = ''P1'', time_arrived = 0, service_time =
      4294967295, memory_required = 0\<rparr>], pending_count = 1, type_pm = SJF, index_cp =
      1, list_input = [], list_active = [\<lparr>pProgram = \<lparr>name = ''P1'',
      time_arrived = 0, service_time = 4294967295, memory_required = 0\<rparr>, run_time =
      0, state = RUNNING, pBlock = None, child_pid = 7, sha_buf = []\<rparr>], list_ready =
      [], pRunningProcess = Some 0, allocator = \<lparr>free_list = [], strategy =
      INFINITE\<rparr>, trace = [Printf ''0,RUNNING,process_name=P1,remaining_time=-1'',
      Fork ''P1'' 7, Write_time 7 0, Write_time 7 2147483648, Kill 7 SIGCONT]\<rparr>"
  have n0: "\<not> should_terminate ?s0" by (simp add: engine_defs)
  have m0: "main_loop_body ?w True 3 ?s0 = Inr ?s1" by (simp add: engine_defs)
  have n1: "\<not> should_terminate ?s1" by (simp add: engine_defs)
  have m1: "main_loop_body ?w True 3 ?s1 = Inr ?s2" by (simp add: engine_defs)
  have r2: "running ?w True SJF INFINITE 3 [\<lparr>name = ''P1'', time_arrived = 0, service_time = 5, memory_required = 0\<rparr>] ?s2"
    by (rule running.turn [OF running.turn [OF running.start n0 m0] n1 m1])
  have k0: "\<not> should_terminate ?t0" by (simp add: engine_defs)
  have l0: "main_loop_body ?w True 2147483648 ?t0 = Inr ?t1" by (simp add: engine_defs)
  have k1: "\<not> should_terminate ?t1" by (simp add: engine_defs)
  have l1: "main_loop_body ?w True 2147483648 ?t1 = Inr ?t2" by (simp add: engine_defs)
  have r1: "running ?w True SJF INFINITE 2147483648 [\<lparr>name = ''P1'', time_arrived = 0, service_time = 4294967295, memory_required = 0\<rparr>] ?t1"
    by (rule running.turn [OF running.start k0 l0])
  show ?thesis using r2 r1 k1 l1 by simp
qed

theorem run_time_bounds_witness:
  "running \<lparr>fork_pid = \<lambda>n. 7, verify_byte = \<lambda>n t. ucast t, sha_hash = \<lambda>n. ''abc''\<rparr> True SJF INFINITE 3
     [\<lparr>name = ''P1'', time_arrived = 0, service_time = 5, memory_required = 0\<rparr>]
     \<lparr>time = 3, pPrograms = [\<lparr>name = ''P1'', time_arrived = 0, service_time =
      5, memory_required = 0\<rparr>], pending_count = 1, type_pm = SJF, index_cp = 1,
      list_input = [], list_active = [\<lparr>pProgram = \<lparr>name = ''P1'', time_arrived
      = 0, service_time = 5, memory_required = 0\<rparr>, run_time = 3, state = RUNNING,
      pBlock = None, child_pid = 7, sha_buf = []\<rparr>], list_ready = [], pRunningProcess
      = Some 0, allocator = \<lparr>free_list = [], strategy = INFINITE\<rparr>, trace =
      [Printf ''0,RUNNING,process_name=P1,remaining_time=5'', Fork ''P1'' 7, Write_time 7
      0]\<rparr> \<and>
   main_loop_body \<lparr>fork_pid = \<lambda>n. 7, verify_byte = \<lambda>n t. ucast t, sha_hash = \<lambda>n. ''abc''\<rparr> True 3
     \<lparr>time = 3, pPrograms = [\<lparr>name = ''P1'', time_arrived = 0, service_time =
      5, memory_required = 0\<rparr>], pending_count = 1, type_pm = SJF, index_cp = 1,
      list_input = [], list_active = [\<lparr>pProgram = \<lparr>name = ''P1'', time_arrived
      = 0, service_time = 5, memory_required = 0\<rparr>, run_time = 3, state = RUNNING,
      pBlock = None, child_pid = 7, sha_buf = []\<rparr>], list_ready = [], pRunningProcess
      = Some 0, allocator = \<lparr>free_list = [], strategy = INFINITE\<rparr>, trace =
      [Printf ''0,RUNNING,process_name=P1,remaining_time=5'', Fork ''P1'' 7, Write_time 7
      0]\<rparr> =
   Inr \<lparr>time = 6, pPrograms = [\<lparr>name = ''P1'', time_arrived = 0, service_time =
      5, memory_required = 0\<rparr>], pending_count = 0, type_pm = SJF, index_cp = 1,
      list_input = [], list_active = [\<lparr>pProgram = \<lparr>name = ''P1'', time_arrived
      = 0, service_time = 5, memory_required = 0\<rparr>, run_time = 6, state = FINISHED,
      pBlock = None, child_pid = 7, sha_buf = ''abc''\<rparr>], list_ready = [],
      pRunningProcess = None, allocator = \<lparr>free_list = [], strategy =
      INFINITE\<rparr>, trace = [Printf ''0,RUNNING,process_name=P1,remaining_time=5'', Fork
      ''P1'' 7, Write_time 7 0, Write_time 7 3, Kill 7 SIGCONT, Write_time 7 6, Kill 7
      SIGTERM, Close_pipes 7, Printf ''6,FINISHED,process_name=P1,proc_remaining=0'', Printf
      ''6,FINISHED-PROCESS,process_name=P1,sha=abc'']\<rparr> \<and>
   unat (run_time (list_active
      \<lparr>time = 3, pPrograms = [\<lparr>name = ''P1'', time_arrived = 0, service_time =
      5, memory_required = 0\<rparr>], pending_count = 1, type_pm = SJF, index_cp = 1,
      list_input = [], list_active = [\<lparr>pProgram = \<lparr>name = ''P1'', time_arrived
      = 0, service_time = 5, memory_required = 0\<rparr>, run_time = 3, state = RUNNING,
      pBlock = None, child_pid = 7, sha_buf = []\<rparr>], list_ready = [], pRunningProcess
      = Some 0, allocator = \<lparr>free_list = [], strategy = INFINITE\<rparr>, trace =
      [Printf ''0,RUNNING,process_name=P1,remaining_time=5'', Fork ''P1'' 7, Write_time 7
      0]\<rparr> ! 0)) + unat (3 :: 32 word) < 2 ^ 32 \<and>
   run_time (list_active
      \<lparr>time = 3, pPrograms = [\<lparr>name = ''P1'', time_arrived = 0, service_time =
      5, memory_required = 0\<rparr>], pending_count = 1, type_pm = SJF, index_cp = 1,
      list_input = [], list_active = [\<lparr>pProgram = \<lparr>name = ''P1'', time_arrived
      = 0, service_time = 5, memory_required = 0\<rparr>, run_time = 3, state = RUNNING,
      pBlock = None, child_pid = 7, sha_buf = []\<rparr>], list_ready = [], pRunningProcess
      = Some 0, allocator = \<lparr>free_list = [], strategy = INFINITE\<rparr>, trace =
      [Printf ''0,RUNNING,process_name=P1,remaining_time=5'', Fork ''P1'' 7, Write_time 7
      0]\<rparr> ! 0)
   \<le> run_time (list_active
      \<lparr>time = 6, pPrograms = [\<lparr>name = ''P1'', time_arrived = 0, service_time =
      5, memory_required = 0\<rparr>], pending_count = 0, type_pm = SJF, index_cp = 1,
      list_input = [], list_active = [\<lparr>pProgram = \<lparr>name = ''P1'', time_arrived
      = 0, service_time = 5, memory_required = 0\<rparr>, run_time = 6, state = FINISHED,
      pBlock = None, child_pid = 7, sha_buf = ''abc''\<rparr>], list_ready = [],
      pRunningProcess = None, allocator = \<lparr>free_list = [], strategy =
      INFINITE\<rparr>, trace = [Printf ''0,RUNNING,process_name=P1,remaining_time=5'', Fork
      ''P1'' 7, Write_time 7 0, Write_time 7 3, Kill 7 SIGCONT, Write_time 7 6, Kill 7
      SIGTERM, Close_pipes 7, Printf ''6,FINISHED,process_name=P1,proc_remaining=0'', Printf
      ''6,FINISHED-PROCESS,process_name=P1,sha=abc'']\<rparr> ! 0) \<and>
   unat (run_time (list_active
      \<lparr>time = 6, pPrograms = [\<lparr>name = ''P1'', time_arrived = 0, service_time =
      5, memory_required = 0\<rparr>], pending_count = 0, type_pm = SJF, index_cp = 1,
      list_input = [], list_active = [\<lparr>pProgram = \<lparr>name = ''P1'', time_arrived
      = 0, service_time = 5, memory_required = 0\<rparr>, run_time = 6, state = FINISHED,
      pBlock = None, child_pid = 7, sha_buf = ''abc''\<rparr>], list_ready = [],
      pRunningProcess = None, allocator = \<lparr>free_list = [], strategy =
      INFINITE\<rparr>, trace = [Printf ''0,RUNNING,process_name=P1,remaining_time=5'', Fork
      ''P1'' 7, Write_time 7 0, Write_time 7 3, Kill 7 SIGCONT, Write_time 7 6, Kill 7
      SIGTERM, Close_pipes 7, Printf ''6,FINISHED,process_name=P1,proc_remaining=0'', Printf
      ''6,FINISHED-PROCESS,process_name=P1,sha=abc'']\<rparr> ! 0))
   \<le> unat (service_time (pProgram (list_active
      \<lparr>time = 6, pPrograms = [\<lparr>name = ''P1'', time_arrived = 0, service_time =
      5, memory_required = 0\<rparr>], pending_count = 0, type_pm = SJF, index_cp = 1,
      list_input = [], list_active = [\<lparr>pProgram = \<lparr>name = ''P1'', time_arrived
      = 0, service_time = 5, memory_required = 0\<rparr>, run_time = 6, state = FINISHED,
      pBlock = None, child_pid = 7, sha_buf = ''abc''\<rparr>], list_ready = [],
      pRunningProcess = None, allocator = \<lparr>free_list = [], strategy =
      INFINITE\<rparr>, trace = [Printf ''0,RUNNING,process_name=P1,remaining_time=5'', Fork
      ''P1'' 7, Write_time 7 0, Write_time 7 3, Kill 7 SIGCONT, Write_time 7 6, Kill 7
      SIGTERM, Close_pipes 7, Printf ''6,FINISHED,process_name=P1,proc_remaining=0'', Printf
      ''6,FINISHED-PROCESS,process_name=P1,sha=abc'']\<rparr> ! 0))) + unat (3 :: 32 word) \<and>
   (\<exists>u'. update \<lparr>fork_pid = \<lambda>n. 7, verify_byte = \<lambda>n t. ucast t, sha_hash = \<lambda>n. ''abc''\<rparr> True
      \<lparr>time = 3, pPrograms = [\<lparr>name = ''P1'', time_arrived = 0, service_time =
      5, memory_required = 0\<rparr>], pending_count = 1, type_pm = SJF, index_cp = 1,
      list_input = [], list_active = [\<lparr>pProgram = \<lparr>name = ''P1'', time_arrived
      = 0, service_time = 5, memory_required = 0\<rparr>, run_time = 3, state = RUNNING,
      pBlock = None, child_pid = 7, sha_buf = []\<rparr>], list_ready = [], pRunningProcess
      = Some 0, allocator = \<lparr>free_list = [], strategy = INFINITE\<rparr>, trace =
      [Printf ''0,RUNNING,process_name=P1,remaining_time=5'', Fork ''P1'' 7, Write_time 7
      0]\<rparr> 3 = Inr u' \<and>
      state (list_active u' ! 0) = FINISHED \<and> pRunningProcess u' = None \<and>
      run_time (list_active u' ! 0) = 6)"
proof -
  let ?w = "\<lparr>fork_pid = \<lambda>n. 7, verify_byte = \<lambda>n t. ucast t, sha_hash = \<lambda>n. ''abc''\<rparr>"
  let ?s0 = "foldl program_add (process_manager_initialise SJF INFINITE) [\<lparr>name = ''P1'', time_arrived = 0, service_time = 5, memory_required = 0\<rparr>]"
  let ?s1 = "\<lparr>time = 3, pPrograms = [\<lparr>name = ''P1'', time_arrived = 0, service_time =
      5, memory_required = 0\<rparr>], pending_count = 1, type_pm = SJF, index_cp = 1,
      list_input = [], list_active = [\<lparr>pProgram = \<lparr>name = ''P1'', time_arrived
      = 0, service_time = 5, memory_required = 0\<rparr>, run_time = 3, state = RUNNING,
      pBlock = None, child_pid = 7, sha_buf = []\<rparr>], list_ready = [], pRunningProcess
      = Some 0, allocator = \<lparr>free_list = [], strategy = INFINITE\<rparr>, trace =
      [Printf ''0,RUNNING,process_name=P1,remaining_time=5'', Fork ''P1'' 7, Write_time 7
      0]\<rparr>"
  let ?s2 = "\<lparr>time = 6, pPrograms = [\<lparr>name = ''P1'', time_arrived = 0, service_time =
      5, memory_required = 0\<rparr>], pending_count = 0, type_pm = SJF, index_cp = 1,
      list_input = [], list_active = [\<lparr>pProgram = \<lparr>name = ''P1'', time_arrived
      = 0, service_time = 5, memory_required = 0\<rparr>, run_time = 6, state = FINISHED,
      pBlock = None, child_pid = 7, sha_buf = ''abc''\<rparr>], list_ready = [],
      pRunningProcess = None, allocator = \<lparr>free_list = [], strategy =
      INFINITE\<rparr>, trace = [Printf ''0,RUNNING,process_name=P1,remaining_time=5'', Fork
      ''P1'' 7, Write_time 7 0, Write_time 7 3, Kill 7 SIGCONT, Write_time 7 6, Kill 7
      SIGTERM, Close_pipes 7, Printf ''6,FINISHED,process_name=P1,proc_remaining=0'', Printf
      ''6,FINISHED-PROCESS,process_name=P1,sha=abc'']\<rparr>"
  have n0: "\<not> should_terminate ?s0" by (simp add: engine_defs)
  have m0: "main_loop_body ?w True 3 ?s0 = Inr ?s1" by (simp add: engine_defs)
  have m1: "main_loop_body ?w True 3 ?s1 = Inr ?s2" by (simp add: engine_defs)
  have r1: "running ?w True SJF INFINITE 3 [\<lparr>name = ''P1'', time_arrived = 0, service_time = 5, memory_required = 0\<rparr>] ?s1"
    by (rule running.turn [OF running.start n0 m0])
  have "\<exists>u'. update ?w True ?s1 3 = Inr u'" by (simp add: engine_defs)
  then obtain u' where u: "update ?w True ?s1 3 = Inr u'" ..
  note t = run_time_bounds [where w = ?w and after_equal = True and ty = SJF and strat = INFINITE
      and quantum = 3 and progs = "[\<lparr>name = ''P1'', time_arrived = 0, service_time = 5, memory_required = 0\<rparr>]" and s = ?s1 and s' = ?s2 and u = ?s1 and r = 0
      and d = 3 and u' = u']
  from t [THEN conjunct1, THEN mp, OF conjI [OF r1 m1]]
  have a: "\<forall>i < length (list_active ?s1).
         (run_time (list_active ?s2 ! i) = run_time (list_active ?s1 ! i) \<or>
          run_time (list_active ?s2 ! i) = run_time (list_active ?s1 ! i) + 3) \<and>
         (unat (run_time (list_active ?s1 ! i)) + unat (3 :: 32 word) < 2 ^ 32 \<longrightarrow>
            run_time (list_active ?s1 ! i) \<le> run_time (list_active ?s2 ! i))"
    and b: "\<forall>p \<in> set (list_active ?s2).
         unat (run_time p) \<le> unat (service_time (pProgram p)) + unat (3 :: 32 word)"
    by blast+
  have nw: "unat (run_time (list_active ?s1 ! 0)) + unat (3 :: 32 word) < 2 ^ 32" by simp
  from a [rule_format, of 0] nw
  have mono: "run_time (list_active ?s1 ! 0) \<le> run_time (list_active ?s2 ! 0)" by simp
  from b have bnd: "unat (run_time (list_active ?s2 ! 0))
     \<le> unat (service_time (pProgram (list_active ?s2 ! 0))) + unat (3 :: 32 word)" by simp
  have h: "pRunningProcess ?s1 = Some 0 \<and> 0 < length (list_active ?s1) \<and>
    service_time (pProgram (list_active ?s1 ! 0)) \<le> run_time (list_active ?s1 ! 0) + 3 \<and>
    update ?w True ?s1 3 = Inr u'"
    using u by simp
  from t [THEN conjunct2, THEN mp, OF h]
  have fin: "state (list_active u' ! 0) = FINISHED \<and> pRunningProcess u' = None \<and>
      run_time (list_active u' ! 0) = 6"
    by simp
  show ?thesis
    using r1 m1 nw mono bnd u fin by blast
qed

section \<open>The reading loop\<close>

lemmas scan_defs = fscanf_program_def scan_unsigned_def scan_string_def is_space_def is_digit_def
  nat_of_digits_def digit_value_def Let_def MAX_NAME_LEN_def

lemma digit_table:
  assumes "k < 10"
  shows "is_digit (''0123456789'' ! k)" and "digit_value (''0123456789'' ! k) = k"
proof -
  from assms have "k = 0 \<or> k = 1 \<or> k = 2 \<or> k = 3 \<or> k = 4 \<or> k = 5 \<or> k = 6 \<or> k = 7 \<or> k = 8 \<or> k = 9"
    by arith
  then show "is_digit (''0123456789'' ! k)" and "digit_value (''0123456789'' ! k) = k"
    by (auto simp: is_digit_def digit_value_def)
qed

lemma digits_of_digits: "digits_of n \<noteq> [] \<and> (\<forall>c \<in> set (digits_of n). is_digit c)"
proof (induction n rule: digits_of.induct)
  case (1 n)
  show ?case
  proof (cases "n < 10")
    case True
    then show ?thesis by (subst (1 2) digits_of.simps) (simp add: digit_table)
  next
    case False
    with 1 show ?thesis by (subst (1 2) digits_of.simps) (simp add: digit_table)
  qed
qed

lemma nat_of_digits_snoc: "nat_of_digits (ds @ [c]) = nat_of_digits ds * 10 + digit_value c"
  by (simp add: nat_of_digits_def)

lemma nat_of_digits_of: "nat_of_digits (digits_of n) = n"
proof (induction n rule: digits_of.induct)
  case (1 n)
  show ?case
  proof (cases "n < 10")
    case True
    then show ?thesis
      by (subst digits_of.simps) (simp add: nat_of_digits_def digit_table)
  next
    case False
    with 1 show ?thesis
      by (subst digits_of.simps) (simp add: nat_of_digits_snoc digit_table)
  qed
qed

lemma is_digit_not_space: "is_digit c \<Longrightarrow> \<not> is_space c \<and> c \<noteq> CHR ''+'' \<and> c \<noteq> CHR ''-''"
  by (auto simp: is_digit_def is_space_def)

lemma scan_unsigned_space: "is_space c \<Longrightarrow> scan_unsigned bound (c # r) = scan_unsigned bound r"
  by (simp add: scan_unsigned_def)

lemma scan_unsigned_digits:
  assumes "n < bound" and "\<not> is_digit c"
  shows "scan_unsigned bound (digits_of n @ c # r) = Converted n (c # r)"
proof -
  obtain d ds where ds: "digits_of n = d # ds"
    using digits_of_digits [of n] by (cases "digits_of n") auto
  have all: "\<forall>x \<in> set (digits_of n). is_digit x" using digits_of_digits by blast
  then have d: "is_digit d" by (simp add: ds)
  note nd = is_digit_not_space [OF d]
  have tw: "takeWhile is_digit (digits_of n @ c # r) = digits_of n"
    using all assms(2) by (simp add: takeWhile_tail)
  have dw: "dropWhile is_digit (digits_of n @ c # r) = c # r"
    using all assms(2) by (simp add: dropWhile_append3)
  have inp: "dropWhile is_space (digits_of n @ c # r) = digits_of n @ c # r"
    using nd by (simp add: ds)
  have hd: "hd (digits_of n @ c # r) = d" by (simp add: ds)
  have ne: "digits_of n \<noteq> []" by (simp add: ds)
  show ?thesis
    unfolding scan_unsigned_def Let_def inp hd
    using nd assms(1) ne by (simp add: tw dw nat_of_digits_of)
qed

lemma scan_string_name:
  assumes "well_formed_name n" and "is_space c"
  shows "scan_string (CHR '' '' # n @ c # r) = Converted n (c # r)"
proof -
  from assms(1) obtain x xs where n: "n = x # xs" and x: "\<not> is_space x"
    by (cases n) (auto simp: well_formed_name_def)
  have all: "\<forall>y \<in> set n. \<not> is_space y" using assms(1) by (simp add: well_formed_name_def)
  have sp: "is_space CHR '' ''" by (simp add: is_space_def)
  have inp: "dropWhile is_space (CHR '' '' # n @ c # r) = n @ c # r"
    using sp x by (simp add: n)
  have tw: "takeWhile (\<lambda>c. \<not> is_space c) (n @ c # r) = n"
    using all assms(2) by (simp add: takeWhile_tail)
  have dw: "dropWhile (\<lambda>c. \<not> is_space c) (n @ c # r) = c # r"
    using all assms(2) by (simp add: dropWhile_append3)
  show ?thesis
    unfolding scan_string_def Let_def inp tw dw by (simp add: n)
qed

lemma fscanf_program_render:
  assumes wf: "well_formed_name (name p)"
  shows "fscanf_program (render_program p @ rest) = Inr (Items 4, p, dropWhile is_space rest)"
proof -
  have sp: "is_space CHR '' ''" "is_space (CHR 0x0A)" "\<not> is_digit CHR '' ''" "\<not> is_digit (CHR 0x0A)"
    by (simp_all add: is_space_def is_digit_def)
  let ?r3 = "digits_of (unat (memory_required p)) @ CHR 0x0A # rest"
  let ?r2 = "digits_of (unat (service_time p)) @ CHR '' '' # ?r3"
  let ?r1 = "name p @ CHR '' '' # ?r2"
  have inp: "render_program p @ rest = digits_of (unat (time_arrived p)) @ CHR '' '' # ?r1"
    by (simp add: render_program_def)
  have b32: "unat (time_arrived p) < 2 ^ 32" "unat (service_time p) < 2 ^ 32"
    using unsigned_less [of "time_arrived p", where ?'a = nat]
      unsigned_less [of "service_time p", where ?'a = nat] by simp_all
  have b16: "unat (memory_required p) < 2 ^ 16"
    using unsigned_less [of "memory_required p", where ?'a = nat] by simp
  have c1: "scan_unsigned (2 ^ 32) (digits_of (unat (time_arrived p)) @ CHR '' '' # ?r1) =
            Converted (unat (time_arrived p)) (CHR '' '' # ?r1)"
    by (rule scan_unsigned_digits [OF b32(1) sp(3)])
  have c2: "scan_string (CHR '' '' # ?r1) = Converted (name p) (CHR '' '' # ?r2)"
    by (rule scan_string_name [OF wf sp(1)])
  have c3: "scan_unsigned (2 ^ 32) (CHR '' '' # ?r2) =
            Converted (unat (service_time p)) (CHR '' '' # ?r3)"
    unfolding scan_unsigned_space [OF sp(1)] by (rule scan_unsigned_digits [OF b32(2) sp(3)])
  have c4: "scan_unsigned (2 ^ 16) (CHR '' '' # ?r3) =
            Converted (unat (memory_required p)) (CHR 0x0A # rest)"
    unfolding scan_unsigned_space [OF sp(1)] by (rule scan_unsigned_digits [OF b16 sp(4)])
  have len: "\<not> length (name p) > MAX_NAME_LEN" using wf by (simp add: well_formed_name_def)
  have dr: "dropWhile is_space (CHR 0x0A # rest) = dropWhile is_space rest"
    using sp(2) by simp
  show ?thesis
    unfolding inp fscanf_program_def Let_def c1 conversion.case c2 c3 c4 dr
    using len by simp
qed


lemma fscanf_program_spaces:
  assumes "\<forall>c \<in> set input. is_space c"
  shows "fscanf_program input =
           Inr (EOF, \<lparr>name = [], time_arrived = 0, service_time = 0, memory_required = 0\<rparr>, [])"
proof -
  have "dropWhile is_space input = []" using assms by simp
  then show ?thesis by (simp add: fscanf_program_def scan_unsigned_def)
qed

lemma read_programs_spaces:
  "\<forall>c \<in> set input. is_space c \<Longrightarrow> read_programs input s = Some (Inr s)"
  by (subst read_programs.simps) (simp add: fscanf_program_spaces)

lemma read_programs_Items:
  "fscanf_program input = Inr (Items n, prog, rest) \<Longrightarrow>
   read_programs input s = read_programs rest (program_add s prog)"
  by (subst read_programs.simps) simp

text \<open>White space in front of a record is skipped by the first conversion.\<close>

lemma fscanf_program_skip: "fscanf_program (dropWhile is_space input) = fscanf_program input"
  by (simp add: fscanf_program_def scan_unsigned_def)

lemma read_programs_skip: "read_programs (dropWhile is_space input) s = read_programs input s"
proof -
  have "read_programs (dropWhile is_space input) s =
        (case fscanf_program input of
           Inl e \<Rightarrow> Some (Inl e)
         | Inr (EOF, new_program, rest) \<Rightarrow> Some (Inr s)
         | Inr (Items n, new_program, rest) \<Rightarrow> read_programs rest (program_add s new_program))"
    by (subst read_programs.simps) (simp only: fscanf_program_skip)
  also have "\<dots> = read_programs input s"
    by (rule read_programs.simps [symmetric])
  finally show ?thesis .
qed

lemma read_programs_rendered_append:
  "\<forall>p \<in> set ps. well_formed_name (name p) \<Longrightarrow>
   read_programs (concat (map render_program ps) @ tail) s =
     read_programs tail (foldl program_add s ps)"
proof (induction ps arbitrary: s)
  case Nil
  show ?case by simp
next
  case (Cons p ps)
  let ?rest = "concat (map render_program ps) @ tail"
  from Cons.prems have "fscanf_program (render_program p @ ?rest) =
      Inr (Items 4, p, dropWhile is_space ?rest)"
    by (intro fscanf_program_render) simp
  from read_programs_Items [OF this, of s]
  have "read_programs (render_program p @ ?rest) s = read_programs ?rest (program_add s p)"
    by (simp only: read_programs_skip)
  with Cons show ?case by simp
qed

lemma read_programs_rendered:
  "\<forall>p \<in> set ps. well_formed_name (name p) \<Longrightarrow>
   read_programs (concat (map render_program ps)) s = Some (Inr (foldl program_add s ps))"
  using read_programs_rendered_append [of ps "[]" s] by (simp add: read_programs_spaces)

text \<open>The fields that a call has not assigned are as \<open>new_program = {}\<close> made them.\<close>

lemma fscanf_program_fields:
  assumes "fscanf_program input = Inr (Items n, prog, rest)"
  shows "(n < 4 \<longrightarrow> memory_required prog = 0) \<and> (n < 3 \<longrightarrow> service_time prog = 0) \<and>
         (n < 2 \<longrightarrow> name prog = []) \<and> (n < 1 \<longrightarrow> time_arrived prog = 0)"
  using assms unfolding fscanf_program_def Let_def
  by (auto split: conversion.splits if_splits)

text \<open>A call that takes the rest of the file is the last one that assigns a field.\<close>

lemma read_programs_last:
  assumes "fscanf_program tail = Inr (Items n, prog, [])"
  shows "read_programs tail s = Some (Inr (program_add s prog))"
  using read_programs_Items [OF assms, of s] by (simp add: read_programs_spaces)

text \<open>A call that assigns no more than some fields and takes no character is repeated
  for ever.\<close>

lemma read_programs_stuck:
  assumes "fscanf_program input = Inr (Items n, prog, input)"
  shows "read_programs input s = None"
proof -
  have aux: "i \<noteq> input" if r: "read_programs i t = Some y" for i t y
  proof (rule read_programs.raw_induct [where P = "\<lambda>i t y. i \<noteq> input", OF _ r])
    fix rp i' t' y'
    assume IH: "\<And>s b y. rp s b = Some y \<Longrightarrow> s \<noteq> input"
      and eq: "(case fscanf_program i' of
                  Inl e \<Rightarrow> Some (Inl e)
                | Inr (EOF, new_program, rest) \<Rightarrow> Some (Inr t')
                | Inr (Items n, new_program, rest) \<Rightarrow> rp rest (program_add t' new_program)) =
               Some y'"
    show "i' \<noteq> input"
    proof
      assume "i' = input"
      with eq assms have "rp input (program_add t' prog) = Some y'" by simp
      from IH [OF this] show False by simp
    qed
  qed
  show ?thesis
  proof (cases "read_programs input s")
    case None
    then show ?thesis .
  next
    case (Some y)
    from aux [OF this] show ?thesis by simp
  qed
qed

text \<open>
  C9, as the code has it. The reading loop stops when \<open>fscanf\<close> returns \<open>EOF\<close>, that is
  when only white space is left of the input: on a file of well-formed records it adds
  every record, in input order, and ends. When the file ends inside a record, so that
  the call of \<open>fscanf\<close> after the well-formed records takes the rest of the file and
  assigns only some of the fields, the records before it are added, the truncated record
  is added after them with the fields not assigned left zero, and the loop ends.
\<close>

theorem read_programs_well_formed:
  "((\<forall>p \<in> set ps. well_formed_name (name p)) \<longrightarrow>
      read_programs (concat (map render_program ps)) s = Some (Inr (foldl program_add s ps))) \<and>
   ((\<forall>c \<in> set input. is_space c) \<longrightarrow> read_programs input s = Some (Inr s)) \<and>
   ((\<forall>p \<in> set ps. well_formed_name (name p)) \<and>
    fscanf_program tail = Inr (Items n, prog, []) \<longrightarrow>
      read_programs (concat (map render_program ps) @ tail) s =
        Some (Inr (program_add (foldl program_add s ps) prog)) \<and>
      (n < 4 \<longrightarrow> memory_required prog = 0) \<and> (n < 3 \<longrightarrow> service_time prog = 0) \<and>
      (n < 2 \<longrightarrow> name prog = []) \<and> (n < 1 \<longrightarrow> time_arrived prog = 0))"
proof -
  have c1: "(\<forall>p \<in> set ps. well_formed_name (name p)) \<longrightarrow>
      read_programs (concat (map render_program ps)) s = Some (Inr (foldl program_add s ps))"
    by (rule impI) (rule read_programs_rendered)
  have c2: "(\<forall>c \<in> set input. is_space c) \<longrightarrow> read_programs input s = Some (Inr s)"
    by (rule impI) (rule read_programs_spaces)
  have c3: "(\<forall>p \<in> set ps. well_formed_name (name p)) \<and>
    fscanf_program tail = Inr (Items n, prog, []) \<longrightarrow>
      read_programs (concat (map render_program ps) @ tail) s =
        Some (Inr (program_add (foldl program_add s ps) prog)) \<and>
      (n < 4 \<longrightarrow> memory_required prog = 0) \<and> (n < 3 \<longrightarrow> service_time prog = 0) \<and>
      (n < 2 \<longrightarrow> name prog = []) \<and> (n < 1 \<longrightarrow> time_arrived prog = 0)"
  proof
    assume h: "(\<forall>p \<in> set ps. well_formed_name (name p)) \<and>
      fscanf_program tail = Inr (Items n, prog, [])"
    then have wf: "\<forall>p \<in> set ps. well_formed_name (name p)"
      and last: "fscanf_program tail = Inr (Items n, prog, [])"
      by simp_all
    have "read_programs (concat (map render_program ps) @ tail) s =
            Some (Inr (program_add (foldl program_add s ps) prog))"
      unfolding read_programs_rendered_append [OF wf] by (rule read_programs_last [OF last])
    with fscanf_program_fields [OF last]
    show "read_programs (concat (map render_program ps) @ tail) s =
        Some (Inr (program_add (foldl program_add s ps) prog)) \<and>
      (n < 4 \<longrightarrow> memory_required prog = 0) \<and> (n < 3 \<longrightarrow> service_time prog = 0) \<and>
      (n < 2 \<longrightarrow> name prog = []) \<and> (n < 1 \<longrightarrow> time_arrived prog = 0)"
      by (rule conjI [rotated])
  qed
  show ?thesis by (rule conjI [OF c1 conjI [OF c2 c3]])
qed

theorem read_programs_well_formed_witness:
  "well_formed_name ''P1'' \<and> well_formed_name ''P2'' \<and>
   read_programs (''0 P1 10 600'' @ [CHR 0x0A] @ ''3 P2 5 20'' @ [CHR 0x0A])
     (process_manager_initialise SJF INFINITE) =
   Some (Inr (foldl program_add (process_manager_initialise SJF INFINITE)
     [\<lparr>name = ''P1'', time_arrived = 0, service_time = 10, memory_required = 600\<rparr>,
      \<lparr>name = ''P2'', time_arrived = 3, service_time = 5, memory_required = 20\<rparr>])) \<and>
   is_space (CHR 0x0A) \<and>
   read_programs [CHR 0x0A] (process_manager_initialise SJF INFINITE) =
     Some (Inr (process_manager_initialise SJF INFINITE)) \<and>
   fscanf_program ''3 P2 5'' =
     Inr (Items 3, \<lparr>name = ''P2'', time_arrived = 3, service_time = 5, memory_required = 0\<rparr>, []) \<and>
   read_programs (''0 P1 10 600'' @ [CHR 0x0A] @ ''3 P2 5'')
     (process_manager_initialise SJF INFINITE) =
   Some (Inr (foldl program_add (process_manager_initialise SJF INFINITE)
     [\<lparr>name = ''P1'', time_arrived = 0, service_time = 10, memory_required = 600\<rparr>,
      \<lparr>name = ''P2'', time_arrived = 3, service_time = 5, memory_required = 0\<rparr>])) \<and>
   memory_required \<lparr>name = ''P2'', time_arrived = 3, service_time = 5, memory_required = 0\<rparr> = 0"
proof -
  let ?P1 = "\<lparr>name = ''P1'', time_arrived = 0, service_time = 10, memory_required = 600\<rparr>"
  let ?P2 = "\<lparr>name = ''P2'', time_arrived = 3, service_time = 5, memory_required = 20\<rparr>"
  let ?T = "\<lparr>name = ''P2'', time_arrived = 3, service_time = 5, memory_required = 0\<rparr>"
  let ?s = "process_manager_initialise SJF INFINITE"
  have wf: "well_formed_name ''P1''" "well_formed_name ''P2''"
    by (simp_all add: well_formed_name_def MAX_NAME_LEN_def is_space_def)
  then have h1: "\<forall>p \<in> set [?P1, ?P2]. well_formed_name (name p)" by simp
  have rendered: "concat (map render_program [?P1, ?P2]) =
             ''0 P1 10 600'' @ [CHR 0x0A] @ ''3 P2 5 20'' @ [CHR 0x0A]"
    by (simp add: render_program_def digits_of.simps)
  have sp: "is_space (CHR 0x0A)" by (simp add: is_space_def)
  then have h2: "\<forall>c \<in> set [CHR 0x0A]. is_space c" by simp
  have last: "fscanf_program ''3 P2 5'' = Inr (Items 3, ?T, [])"
    by (simp add: scan_defs)
  from wf last
  have h3: "(\<forall>p \<in> set [?P1]. well_formed_name (name p)) \<and>
            fscanf_program ''3 P2 5'' = Inr (Items 3, ?T, [])"
    by simp
  have rendered1: "concat (map render_program [?P1]) @ ''3 P2 5'' =
             ''0 P1 10 600'' @ [CHR 0x0A] @ ''3 P2 5''"
    by (simp add: render_program_def digits_of.simps)
  note t1 = read_programs_well_formed [where ps = "[?P1, ?P2]" and s = ?s and input = "[CHR 0x0A]",
      THEN conjunct1, THEN mp, OF h1]
  note t2 = read_programs_well_formed [where ps = "[]" and s = ?s and input = "[CHR 0x0A]",
      THEN conjunct2, THEN conjunct1, THEN mp, OF h2]
  note t3 = read_programs_well_formed [where ps = "[?P1]" and s = ?s and tail = "''3 P2 5''"
      and n = 3 and prog = ?T, THEN conjunct2, THEN conjunct2, THEN mp, OF h3]
  from t3 have t3a: "read_programs (concat (map render_program [?P1]) @ ''3 P2 5'') ?s =
        Some (Inr (program_add (foldl program_add ?s [?P1]) ?T))"
    and t3b: "(3 :: nat) < 4 \<longrightarrow> memory_required ?T = 0"
    by blast+
  show ?thesis using wf t1 [unfolded rendered] sp t2 last t3a [unfolded rendered1] t3b by simp
qed

theorem read_programs_counterexample:
  "read_programs ''0 P1 10'' (process_manager_initialise SJF INFINITE) =
     Some (Inr (program_add (process_manager_initialise SJF INFINITE)
        \<lparr>name = ''P1'', time_arrived = 0, service_time = 10, memory_required = 0\<rparr>)) \<and>
   read_programs (''0 P1 x 5'' @ [CHR 0x0A] @ ''1 P2 3 4'' @ [CHR 0x0A])
     (process_manager_initialise SJF INFINITE) = None"
proof -
  let ?s = "process_manager_initialise SJF INFINITE"
  let ?T = "\<lparr>name = ''P1'', time_arrived = 0, service_time = 10, memory_required = 0\<rparr>"
  let ?U = "\<lparr>name = ''P1'', time_arrived = 0, service_time = 0, memory_required = 0\<rparr>"
  let ?rest = "''x 5'' @ [CHR 0x0A] @ ''1 P2 3 4'' @ [CHR 0x0A]"
  have "fscanf_program ''0 P1 10'' = Inr (Items 3, ?T, [])"
    by (simp add: scan_defs)
  from read_programs_Items [OF this, of ?s]
  have a: "read_programs ''0 P1 10'' ?s = Some (Inr (program_add ?s ?T))"
    by (simp add: read_programs_spaces)
  have "fscanf_program (''0 P1 x 5'' @ [CHR 0x0A] @ ''1 P2 3 4'' @ [CHR 0x0A]) =
        Inr (Items 2, ?U, ?rest)"
    by (simp add: scan_defs)
  from read_programs_Items [OF this, of ?s]
  have b1: "read_programs (''0 P1 x 5'' @ [CHR 0x0A] @ ''1 P2 3 4'' @ [CHR 0x0A]) ?s =
            read_programs ?rest (program_add ?s ?U)" .
  have "fscanf_program ?rest =
        Inr (Items 0, \<lparr>name = [], time_arrived = 0, service_time = 0, memory_required = 0\<rparr>, ?rest)"
    by (simp add: scan_defs)
  from read_programs_stuck [OF this] b1
  have b: "read_programs (''0 P1 x 5'' @ [CHR 0x0A] @ ''1 P2 3 4'' @ [CHR 0x0A]) ?s = None"
    by simp
  from a b show ?thesis by simp
qed

text \<open>
  C2, on the code. A program that asks for no memory is handed a block of size zero, and
  its release puts a zero-size block into the free list that the merging loop never
  joins with a block that starts at the same offset and comes before it in the list. The
  allocator states below are those of the run on the input
  \<open>0 A 1 100\<close>, \<open>0 Z 1 0\<close>, \<open>2 B 1 50\<close>, \<open>2 C 5 50\<close> (shortest job first,
  quantum 1): \<open>A\<close> and \<open>Z\<close> are admitted and finish, \<open>B\<close> and \<open>C\<close> are admitted,
  \<open>B\<close> finishes. The free list before the release of the block of \<open>B\<close> is sorted
  by start offset; after it the block at 100 of size 0 ends where the block at 100 of
  size 1948 starts, and both are in the list. No insertion of the run meets a block of
  its own start offset, so the result is the same for both readings of
  \<open>list_insert_sorted\<close>. The last part is the run itself: after three turns of the
  execution loop on that input, with workers that answer as the protocol asks, the clock
  is at 3 and the free list of the manager is the one with the two touching blocks.
\<close>

theorem release_leaves_touching_blocks:
  "\<forall>after_equal.
     reachable after_equal
       \<lparr>free_list = [\<lparr>index = 100, size_mb = 1948\<rparr>, \<lparr>index = 100, size_mb = 0\<rparr>],
        strategy = BEST_FIT\<rparr>
       [\<lparr>index = 0, size_mb = 50\<rparr>, \<lparr>index = 50, size_mb = 50\<rparr>] \<and>
     sorted_by_index [\<lparr>index = 100, size_mb = 1948\<rparr>, \<lparr>index = 100, size_mb = 0\<rparr>] \<and>
     release_block after_equal
       [\<lparr>index = 100, size_mb = 1948\<rparr>, \<lparr>index = 100, size_mb = 0\<rparr>]
       \<lparr>index = 0, size_mb = 50\<rparr> =
       [\<lparr>index = 0, size_mb = 50\<rparr>, \<lparr>index = 100, size_mb = 1948\<rparr>,
        \<lparr>index = 100, size_mb = 0\<rparr>] \<and>
     index \<lparr>index = 100, size_mb = 0\<rparr> + size_mb \<lparr>index = 100, size_mb = 0\<rparr> =
       index \<lparr>index = 100, size_mb = 1948\<rparr> \<and>
     (\<exists>s. running
            \<lparr>fork_pid = \<lambda>n. 7, verify_byte = \<lambda>n t. ucast t, sha_hash = \<lambda>n. ''h''\<rparr>
            after_equal SJF BEST_FIT 1
            [\<lparr>name = ''A'', time_arrived = 0, service_time = 1, memory_required = 100\<rparr>,
             \<lparr>name = ''Z'', time_arrived = 0, service_time = 1, memory_required = 0\<rparr>,
             \<lparr>name = ''B'', time_arrived = 2, service_time = 1, memory_required = 50\<rparr>,
             \<lparr>name = ''C'', time_arrived = 2, service_time = 5, memory_required = 50\<rparr>] s \<and>
          time s = 3 \<and>
          free_list (allocator s) =
            [\<lparr>index = 0, size_mb = 50\<rparr>, \<lparr>index = 100, size_mb = 1948\<rparr>,
             \<lparr>index = 100, size_mb = 0\<rparr>])"
proof
  fix ae
  let ?A = "\<lparr>index = 0, size_mb = 100 :: 32 word\<rparr>"
  let ?Z = "\<lparr>index = 100, size_mb = 0 :: 32 word\<rparr>"
  let ?B = "\<lparr>index = 0, size_mb = 50 :: 32 word\<rparr>"
  let ?C = "\<lparr>index = 50, size_mb = 50 :: 32 word\<rparr>"
  have r0: "reachable ae \<lparr>free_list = [\<lparr>index = 0, size_mb = 2048\<rparr>], strategy = BEST_FIT\<rparr> []"
    using reachable.init [of ae]
    by (simp add: allocator_initialise_def list_insert_head_def BUFFER_SIZE_def)
  have r1: "reachable ae \<lparr>free_list = [\<lparr>index = 100, size_mb = 1948\<rparr>], strategy = BEST_FIT\<rparr> [?A]"
    using reachable.allocate [OF r0, of 100 ?A]
    by (simp add: allocator_find_best_fit_def list_insert_tail_def)
  have r2: "reachable ae \<lparr>free_list = [\<lparr>index = 100, size_mb = 1948\<rparr>], strategy = BEST_FIT\<rparr>
              [?A, ?Z]"
    using reachable.allocate [OF r1, of 0 ?Z]
    by (simp add: allocator_find_best_fit_def list_insert_tail_def)
  have "release_block ae [\<lparr>index = 100, size_mb = 1948\<rparr>] ?A = [\<lparr>index = 0, size_mb = 2048\<rparr>]"
    by (cases ae) (simp_all add: release_block_def mem_block_cmp_def)
  then have r3: "reachable ae \<lparr>free_list = [\<lparr>index = 0, size_mb = 2048\<rparr>], strategy = BEST_FIT\<rparr> [?Z]"
    using reachable.release [OF r2, of 0] by (simp add: list_pop_node_def)
  have "release_block ae [\<lparr>index = 0, size_mb = 2048\<rparr>] ?Z = [\<lparr>index = 0, size_mb = 2048\<rparr>, ?Z]"
    by (cases ae) (simp_all add: release_block_def mem_block_cmp_def)
  then have r4: "reachable ae \<lparr>free_list = [\<lparr>index = 0, size_mb = 2048\<rparr>, ?Z], strategy = BEST_FIT\<rparr> []"
    using reachable.release [OF r3, of 0] by (simp add: list_pop_node_def)
  have r5: "reachable ae \<lparr>free_list = [\<lparr>index = 50, size_mb = 1998\<rparr>, ?Z], strategy = BEST_FIT\<rparr> [?B]"
    using reachable.allocate [OF r4, of 50 ?B]
    by (simp add: allocator_find_best_fit_def list_insert_tail_def)
  have r6: "reachable ae \<lparr>free_list = [\<lparr>index = 100, size_mb = 1948\<rparr>, ?Z], strategy = BEST_FIT\<rparr>
              [?B, ?C]"
    using reachable.allocate [OF r5, of 50 ?C]
    by (simp add: allocator_find_best_fit_def list_insert_tail_def)
  have s: "sorted_by_index [\<lparr>index = 100, size_mb = 1948\<rparr>, ?Z]"
    by (simp add: sorted_by_index_def)
  have rel: "release_block ae [\<lparr>index = 100, size_mb = 1948\<rparr>, ?Z] ?B =
       [?B, \<lparr>index = 100, size_mb = 1948\<rparr>, ?Z]"
    by (cases ae) (simp_all add: release_block_def mem_block_cmp_def)
  let ?w = "\<lparr>fork_pid = \<lambda>n. 7, verify_byte = \<lambda>n t. ucast t, sha_hash = \<lambda>n. ''h''\<rparr>"
  let ?s0 = "foldl program_add (process_manager_initialise SJF BEST_FIT)
     [\<lparr>name = ''A'', time_arrived = 0, service_time = 1, memory_required = 100\<rparr>,
      \<lparr>name = ''Z'', time_arrived = 0, service_time = 1, memory_required = 0\<rparr>,
      \<lparr>name = ''B'', time_arrived = 2, service_time = 1, memory_required = 50\<rparr>,
      \<lparr>name = ''C'', time_arrived = 2, service_time = 5, memory_required = 50\<rparr>]"
  let ?s1 = "\<lparr>time = 1, pPrograms = [\<lparr>name = ''A'', time_arrived = 0, service_time = 1,
      memory_required = 100\<rparr>, \<lparr>name = ''Z'', time_arrived = 0, service_time = 1,
      memory_required = 0\<rparr>, \<lparr>name = ''B'', time_arrived = 2, service_time = 1,
      memory_required = 50\<rparr>, \<lparr>name = ''C'', time_arrived = 2, service_time = 5,
      memory_required = 50\<rparr>], pending_count = 1, type_pm = SJF, index_cp = 2,
      list_input = [], list_active = [\<lparr>pProgram = \<lparr>name = ''A'', time_arrived =
      0, service_time = 1, memory_required = 100\<rparr>, run_time = 1, state = FINISHED,
      pBlock = None, child_pid = 7, sha_buf = ''h''\<rparr>, \<lparr>pProgram = \<lparr>name =
      ''Z'', time_arrived = 0, service_time = 1, memory_required = 0\<rparr>, run_time = 0,
      state = READY, pBlock = Some \<lparr>index = 100, size_mb = 0\<rparr>, child_pid = - 2,
      sha_buf = []\<rparr>], list_ready = [1], pRunningProcess = None, allocator =
      \<lparr>free_list = [\<lparr>index = 0, size_mb = 2048\<rparr>], strategy =
      BEST_FIT\<rparr>, trace = [Printf ''0,READY,process_name=A,assigned_at=0'', Printf
      ''0,READY,process_name=Z,assigned_at=100'', Printf
      ''0,RUNNING,process_name=A,remaining_time=1'', Fork ''A'' 7, Write_time 7 0, Write_time
      7 1, Kill 7 SIGTERM, Close_pipes 7, Printf
      ''1,FINISHED,process_name=A,proc_remaining=1'', Printf
      ''1,FINISHED-PROCESS,process_name=A,sha=h'']\<rparr>"
  let ?s2 = "\<lparr>time = 2, pPrograms = [\<lparr>name = ''A'', time_arrived = 0, service_time = 1,
      memory_required = 100\<rparr>, \<lparr>name = ''Z'', time_arrived = 0, service_time = 1,
      memory_required = 0\<rparr>, \<lparr>name = ''B'', time_arrived = 2, service_time = 1,
      memory_required = 50\<rparr>, \<lparr>name = ''C'', time_arrived = 2, service_time = 5,
      memory_required = 50\<rparr>], pending_count = 0, type_pm = SJF, index_cp = 2,
      list_input = [], list_active = [\<lparr>pProgram = \<lparr>name = ''A'', time_arrived =
      0, service_time = 1, memory_required = 100\<rparr>, run_time = 1, state = FINISHED,
      pBlock = None, child_pid = 7, sha_buf = ''h''\<rparr>, \<lparr>pProgram = \<lparr>name =
      ''Z'', time_arrived = 0, service_time = 1, memory_required = 0\<rparr>, run_time = 1,
      state = FINISHED, pBlock = None, child_pid = 7, sha_buf = ''h''\<rparr>], list_ready =
      [], pRunningProcess = None, allocator = \<lparr>free_list = [\<lparr>index = 0, size_mb
      = 2048\<rparr>, \<lparr>index = 100, size_mb = 0\<rparr>], strategy = BEST_FIT\<rparr>,
      trace = [Printf ''0,READY,process_name=A,assigned_at=0'', Printf
      ''0,READY,process_name=Z,assigned_at=100'', Printf
      ''0,RUNNING,process_name=A,remaining_time=1'', Fork ''A'' 7, Write_time 7 0, Write_time
      7 1, Kill 7 SIGTERM, Close_pipes 7, Printf
      ''1,FINISHED,process_name=A,proc_remaining=1'', Printf
      ''1,FINISHED-PROCESS,process_name=A,sha=h'', Printf
      ''1,RUNNING,process_name=Z,remaining_time=1'', Fork ''Z'' 7, Write_time 7 1, Write_time
      7 2, Kill 7 SIGTERM, Close_pipes 7, Printf
      ''2,FINISHED,process_name=Z,proc_remaining=0'', Printf
      ''2,FINISHED-PROCESS,process_name=Z,sha=h'']\<rparr>"
  let ?s3 = "\<lparr>time = 3, pPrograms = [\<lparr>name = ''A'', time_arrived = 0, service_time = 1,
      memory_required = 100\<rparr>, \<lparr>name = ''Z'', time_arrived = 0, service_time = 1,
      memory_required = 0\<rparr>, \<lparr>name = ''B'', time_arrived = 2, service_time = 1,
      memory_required = 50\<rparr>, \<lparr>name = ''C'', time_arrived = 2, service_time = 5,
      memory_required = 50\<rparr>], pending_count = 1, type_pm = SJF, index_cp = 4,
      list_input = [], list_active = [\<lparr>pProgram = \<lparr>name = ''A'', time_arrived =
      0, service_time = 1, memory_required = 100\<rparr>, run_time = 1, state = FINISHED,
      pBlock = None, child_pid = 7, sha_buf = ''h''\<rparr>, \<lparr>pProgram = \<lparr>name =
      ''Z'', time_arrived = 0, service_time = 1, memory_required = 0\<rparr>, run_time = 1,
      state = FINISHED, pBlock = None, child_pid = 7, sha_buf = ''h''\<rparr>,
      \<lparr>pProgram = \<lparr>name = ''B'', time_arrived = 2, service_time = 1,
      memory_required = 50\<rparr>, run_time = 1, state = FINISHED, pBlock = None, child_pid =
      7, sha_buf = ''h''\<rparr>, \<lparr>pProgram = \<lparr>name = ''C'', time_arrived = 2,
      service_time = 5, memory_required = 50\<rparr>, run_time = 0, state = READY, pBlock =
      Some \<lparr>index = 50, size_mb = 50\<rparr>, child_pid = - 2, sha_buf = []\<rparr>],
      list_ready = [3], pRunningProcess = None, allocator = \<lparr>free_list = [\<lparr>index
      = 0, size_mb = 50\<rparr>, \<lparr>index = 100, size_mb = 1948\<rparr>, \<lparr>index =
      100, size_mb = 0\<rparr>], strategy = BEST_FIT\<rparr>, trace = [Printf
      ''0,READY,process_name=A,assigned_at=0'', Printf
      ''0,READY,process_name=Z,assigned_at=100'', Printf
      ''0,RUNNING,process_name=A,remaining_time=1'', Fork ''A'' 7, Write_time 7 0, Write_time
      7 1, Kill 7 SIGTERM, Close_pipes 7, Printf
      ''1,FINISHED,process_name=A,proc_remaining=1'', Printf
      ''1,FINISHED-PROCESS,process_name=A,sha=h'', Printf
      ''1,RUNNING,process_name=Z,remaining_time=1'', Fork ''Z'' 7, Write_time 7 1, Write_time
      7 2, Kill 7 SIGTERM, Close_pipes 7, Printf
      ''2,FINISHED,process_name=Z,proc_remaining=0'', Printf
      ''2,FINISHED-PROCESS,process_name=Z,sha=h'', Printf
      ''2,READY,process_name=B,assigned_at=0'', Printf
      ''2,READY,process_name=C,assigned_at=50'', Printf
      ''2,RUNNING,process_name=B,remaining_time=1'', Fork ''B'' 7, Write_time 7 2, Write_time
      7 3, Kill 7 SIGTERM, Close_pipes 7, Printf
      ''3,FINISHED,process_name=B,proc_remaining=1'', Printf
      ''3,FINISHED-PROCESS,process_name=B,sha=h'']\<rparr>"
  have w21: "\<not> (2::32 word) \<le> 1" by (simp add: word_le_nat_alt)
  have n0: "\<not> should_terminate ?s0" by (simp add: engine_defs)
  have m0: "main_loop_body ?w ae 1 ?s0 = Inr ?s1"
    by (cases ae) (simp_all add: engine_defs w21)
  have n1: "\<not> should_terminate ?s1" by (simp add: engine_defs)
  have m1: "main_loop_body ?w ae 1 ?s1 = Inr ?s2"
    by (cases ae) (simp_all add: engine_defs w21)
  have n2: "\<not> should_terminate ?s2" by (simp add: engine_defs)
  have m2: "main_loop_body ?w ae 1 ?s2 = Inr ?s3"
    by (cases ae) (simp_all add: engine_defs w21)
  have "running ?w ae SJF BEST_FIT 1
     [\<lparr>name = ''A'', time_arrived = 0, service_time = 1, memory_required = 100\<rparr>,
      \<lparr>name = ''Z'', time_arrived = 0, service_time = 1, memory_required = 0\<rparr>,
      \<lparr>name = ''B'', time_arrived = 2, service_time = 1, memory_required = 50\<rparr>,
      \<lparr>name = ''C'', time_arrived = 2, service_time = 5, memory_required = 50\<rparr>] ?s3"
    by (rule running.turn [OF running.turn [OF running.turn [OF running.start n0 m0] n1 m1] n2 m2])
  then have run: "\<exists>s. running ?w ae SJF BEST_FIT 1
     [\<lparr>name = ''A'', time_arrived = 0, service_time = 1, memory_required = 100\<rparr>,
      \<lparr>name = ''Z'', time_arrived = 0, service_time = 1, memory_required = 0\<rparr>,
      \<lparr>name = ''B'', time_arrived = 2, service_time = 1, memory_required = 50\<rparr>,
      \<lparr>name = ''C'', time_arrived = 2, service_time = 5, memory_required = 50\<rparr>] s \<and>
          time s = 3 \<and>
          free_list (allocator s) =
            [\<lparr>index = 0, size_mb = 50\<rparr>, \<lparr>index = 100, size_mb = 1948\<rparr>,
             \<lparr>index = 100, size_mb = 0\<rparr>]"
    by (intro exI [of _ ?s3]) simp
  show "reachable ae
       \<lparr>free_list = [\<lparr>index = 100, size_mb = 1948\<rparr>, \<lparr>index = 100, size_mb = 0\<rparr>],
        strategy = BEST_FIT\<rparr>
       [\<lparr>index = 0, size_mb = 50\<rparr>, \<lparr>index = 50, size_mb = 50\<rparr>] \<and>
     sorted_by_index [\<lparr>index = 100, size_mb = 1948\<rparr>, \<lparr>index = 100, size_mb = 0\<rparr>] \<and>
     release_block ae
       [\<lparr>index = 100, size_mb = 1948\<rparr>, \<lparr>index = 100, size_mb = 0\<rparr>]
       \<lparr>index = 0, size_mb = 50\<rparr> =
       [\<lparr>index = 0, size_mb = 50\<rparr>, \<lparr>index = 100, size_mb = 1948\<rparr>,
        \<lparr>index = 100, size_mb = 0\<rparr>] \<and>
     index \<lparr>index = 100, size_mb = 0\<rparr> + size_mb \<lparr>index = 100, size_mb = 0\<rparr> =
       index \<lparr>index = 100, size_mb = 1948\<rparr> \<and>
     (\<exists>s. running ?w ae SJF BEST_FIT 1
            [\<lparr>name = ''A'', time_arrived = 0, service_time = 1, memory_required = 100\<rparr>,
      \<lparr>name = ''Z'', time_arrived = 0, service_time = 1, memory_required = 0\<rparr>,
      \<lparr>name = ''B'', time_arrived = 2, service_time = 1, memory_required = 50\<rparr>,
      \<lparr>name = ''C'', time_arrived = 2, service_time = 5, memory_required = 50\<rparr>] s \<and>
          time s = 3 \<and>
          free_list (allocator s) =
            [\<lparr>index = 0, size_mb = 50\<rparr>, \<lparr>index = 100, size_mb = 1948\<rparr>,
             \<lparr>index = 100, size_mb = 0\<rparr>])"
    using r6 s rel run by simp
qed

end
